theory Spec2Isabelle
  imports Main "HOL-Library.Word" "HOL-Library.AList"
begin

unbundle bit_operations_syntax

section \<open>Go values shared by all packages\<close>

text \<open>
  A Go \<^verbatim>\<open>byte\<close> is an 8-bit word.  A Go \<^verbatim>\<open>int\<close> is modelled as an
  unbounded \<^typ>\<open>int\<close>; the places where 64-bit wrap-around can be observed write
  it out with \<open>wrap64\<close>.  Lengths and positions inside a slice are never negative
  and are natural numbers.  A run-time panic is an error value.
\<close>

type_synonym byte = "8 word"

text \<open>Go's \<^verbatim>\<open>/\<close> and \<^verbatim>\<open>%\<close> on integers truncate towards zero.\<close>

definition go_quot :: "int \<Rightarrow> int \<Rightarrow> int" where
  "go_quot a b = sgn a * sgn b * (\<bar>a\<bar> div \<bar>b\<bar>)"

definition go_rem :: "int \<Rightarrow> int \<Rightarrow> int" where
  "go_rem a b = sgn a * (\<bar>a\<bar> mod \<bar>b\<bar>)"

text \<open>Two's-complement wrap-around of a 64-bit signed integer.\<close>

definition wrap64 :: "int \<Rightarrow> int" where
  "wrap64 x = (x + 2 ^ 63) mod 2 ^ 64 - 2 ^ 63"

text \<open>
  \<^verbatim>\<open>copy(dst[at:], src)\<close> for \<open>at \<le> len(dst)\<close>: copies
  \<open>min (len(dst) - at) (len(src))\<close> elements and returns that count along with
  the updated destination.
\<close>

definition copy_at :: "'a list \<Rightarrow> nat \<Rightarrow> 'a list \<Rightarrow> 'a list \<times> nat" where
  "copy_at dst at src =
     (let n = min (length dst - at) (length src)
      in (take at dst @ take n src @ drop (at + n) dst, n))"

text \<open>\<^verbatim>\<open>[]byte(s)\<close> for a Go string \<open>s\<close>.\<close>

definition bytes_of :: "string \<Rightarrow> byte list" where
  "bytes_of s = map of_char s"

section \<open>Package torrent: the bitfield\<close>

text \<open>
  \<^verbatim>\<open>
  func (bf Bitfield) HasPiece(index int) bool {
      byteIndex := index / 8
      offset := index % 8
      if byteIndex < 0 || byteIndex >= len(bf) { return false }
      return (bf[byteIndex] >> (7 - offset) % 1) != 0
  }
  \<close>
  In Go the operators \<^verbatim>\<open>>>\<close> and \<^verbatim>\<open>%\<close> have the same precedence (5) and
  associate to the left, so the returned expression is
  \<^verbatim>\<open>((bf[byteIndex] >> (7 - offset)) % 1) != 0\<close>.  The shift count
  \<open>7 - offset\<close> lies between 0 and 14, so the shift never panics.
\<close>

definition HasPiece :: "byte list \<Rightarrow> int \<Rightarrow> bool" where
  "HasPiece bf index =
     (let byteIndex = go_quot index 8;
          offset = go_rem index 8
      in if byteIndex < 0 \<or> byteIndex \<ge> int (length bf) then False
         else (drop_bit (nat (7 - offset)) (bf ! nat byteIndex)) mod 1 \<noteq> 0)"

text \<open>
  The reading of the same expression in which \<^verbatim>\<open>%\<close> binds tighter than
  \<^verbatim>\<open>>>\<close> (as it does in C): the shift count is \<open>(7 - offset) % 1 = 0\<close>.
  This definition follows the words of the specification, not the source.
\<close>

definition HasPiece_shift_by_zero :: "byte list \<Rightarrow> int \<Rightarrow> bool" where
  "HasPiece_shift_by_zero bf index =
     (let byteIndex = go_quot index 8;
          offset = go_rem index 8
      in if byteIndex < 0 \<or> byteIndex \<ge> int (length bf) then False
         else drop_bit (nat (go_rem (7 - offset) 1)) (bf ! nat byteIndex) \<noteq> 0)"

section \<open>Package p2p: the handshake\<close>

record Handshake =
  Pstr :: string
  InfoHash :: "byte list"
  PeerID :: "byte list"

definition NewHandshake :: "byte list \<Rightarrow> byte list \<Rightarrow> Handshake" where
  "NewHandshake infoHash peerID =
     \<lparr>Pstr = ''BitTorrent protocol'', InfoHash = infoHash, PeerID = peerID\<rparr>"

text \<open>
  \<^verbatim>\<open>
  func (h *Handshake) Serialize() []byte {
      buf := make([]byte, 68)
      buf[0] = byte(len(h.Pstr))
      curr := 1
      curr += copy(buf[curr:], []byte(h.Pstr))
      curr += copy(buf[curr:], make([]byte, 8))
      curr += copy(buf[curr:], h.InfoHash[:])
      curr += copy(buf[curr:], h.PeerID[:])
      return buf
  }
  \<close>
  Every \<open>curr\<close> stays at most 68 because \<^verbatim>\<open>copy\<close> never writes past the
  destination, so no slice expression panics.
\<close>

definition Serialize :: "Handshake \<Rightarrow> byte list" where
  "Serialize h =
     (let buf0 = (replicate 68 (0::byte))[0 := word_of_nat (length (Pstr h))];
          curr0 = 1;
          (buf1, n1) = copy_at buf0 curr0 (bytes_of (Pstr h));
          curr1 = curr0 + n1;
          (buf2, n2) = copy_at buf1 curr1 (replicate 8 (0::byte));
          curr2 = curr1 + n2;
          (buf3, n3) = copy_at buf2 curr2 (InfoHash h);
          curr3 = curr2 + n3;
          (buf4, n4) = copy_at buf3 curr3 (PeerID h)
      in buf4)"

text \<open>Run-time panics of the Go runtime that the modelled functions can raise.\<close>

datatype panic = SliceBoundsOutOfRange | IndexOutOfRange | MakeSliceLenOutOfRange | IntegerDivideByZero
  | TypeAssertionFailed

section \<open>Package p2p: piece progress\<close>

record PieceProgress =
  Index :: int
  Buf :: "byte list"
  Downloaded :: int

text \<open>
  \<^verbatim>\<open>
  func NewPieceProgress(index int, length int) *PieceProgress {
      return &PieceProgress{ Index: index, Buf: make([]byte, length) }
  }
  \<close>
  \<^verbatim>\<open>make\<close> panics on a negative length.
\<close>

definition NewPieceProgress :: "int \<Rightarrow> int \<Rightarrow> panic + PieceProgress" where
  "NewPieceProgress index len =
     (if len < 0 then Inl MakeSliceLenOutOfRange
      else Inr \<lparr>PieceProgress.Index = index,
                PieceProgress.Buf = replicate (nat len) 0,
                PieceProgress.Downloaded = 0\<rparr>)"

text \<open>
  \<^verbatim>\<open>
  func (pp *PieceProgress) AddBlock(begin int, block []byte) {
      copy(pp.Buf[begin:], block)
      pp.Downloaded += len(block)
  }
  \<close>
  The slice expression \<^verbatim>\<open>pp.Buf[begin:]\<close> panics unless
  \<open>0 \<le> begin \<le> len(pp.Buf)\<close>.
\<close>

definition AddBlock :: "PieceProgress \<Rightarrow> int \<Rightarrow> byte list \<Rightarrow> panic + PieceProgress" where
  "AddBlock pp begin block =
     (if begin < 0 \<or> begin > int (length (PieceProgress.Buf pp)) then Inl SliceBoundsOutOfRange
      else Inr (pp\<lparr>PieceProgress.Buf := fst (copy_at (PieceProgress.Buf pp) (nat begin) block),
                   PieceProgress.Downloaded := PieceProgress.Downloaded pp + int (length block)\<rparr>))"

definition IsComplete :: "PieceProgress \<Rightarrow> bool" where
  "IsComplete pp = (PieceProgress.Downloaded pp = int (length (PieceProgress.Buf pp)))"

text \<open>A sequence of \<open>AddBlock\<close> calls on one progress record; a panic ends it.\<close>

fun AddBlocks :: "PieceProgress \<Rightarrow> (int \<times> byte list) list \<Rightarrow> panic + PieceProgress" where
  "AddBlocks pp [] = Inr pp"
| "AddBlocks pp ((begin, block) # calls) =
     (case AddBlock pp begin block of
        Inl e \<Rightarrow> Inl e
      | Inr pp' \<Rightarrow> AddBlocks pp' calls)"

section \<open>Package torrent: metainfo and the piece list\<close>

record File =
  Length :: int
  Path :: "string list"

record InfoDict =
  PieceLength :: int
  Pieces :: string
  Name :: string
  Length :: int
  Files :: "File list"

record Torrent =
  Announce :: string
  Info :: InfoDict

record Piece =
  Index :: int
  Hash :: "byte list"
  Length :: int

text \<open>
  The total length as computed at the head of \<open>CreatePieceList\<close> (and again in
  \<open>BuildTrackerURL\<close>):
  \<^verbatim>\<open>
  var totalLength int64
  if t.Info.Length > 0 { totalLength = t.Info.Length }
  else { for _, f := range t.Info.Files { totalLength += f.Length } }
  \<close>
  The additions are 64-bit and wrap around.
\<close>

fun sumFiles :: "int \<Rightarrow> File list \<Rightarrow> int" where
  "sumFiles tot [] = tot"
| "sumFiles tot (f # fs) = sumFiles (wrap64 (tot + File.Length f)) fs"

definition totalLength :: "Torrent \<Rightarrow> int" where
  "totalLength t =
     (if InfoDict.Length (Info t) > 0 then InfoDict.Length (Info t)
      else sumFiles 0 (Files (Info t)))"

text \<open>
  The loop of \<open>CreatePieceList\<close>:
  \<^verbatim>\<open>
  for i := 0; i < numPieces; i++ {
      pieceLength := int(t.Info.PieceLength)
      if i == numPieces-1 {
          lastPiecelength := int(totalLength % int64(t.Info.PieceLength))
          if lastPiecelength > 0 { pieceLength = lastPiecelength }
      }
      p := Piece{ Index: i, Length: pieceLength }
      copy(p.Hash[:], rawHashes[i*20:(i+1)*20])
      pieces[i] = p
  }
  \<close>
  The remainder panics when the piece length is zero.  The slice of
  \<open>rawHashes\<close> is always in range because \<open>numPieces = len(rawHashes) / 20\<close>.
\<close>

function CreatePieceList_loop ::
  "int \<Rightarrow> byte list \<Rightarrow> nat \<Rightarrow> int \<Rightarrow> nat \<Rightarrow> Piece list \<Rightarrow> panic + Piece list" where
  "CreatePieceList_loop P rawHashes numPieces tot i pieces =
     (if i < numPieces then
        (if i = numPieces - 1 \<and> P = 0 then Inl IntegerDivideByZero
         else
           let pieceLength =
                 (if i = numPieces - 1 \<and> go_rem tot P > 0 then go_rem tot P else P);
               p = \<lparr>Piece.Index = int i,
                    Piece.Hash = take 20 (drop (i * 20) rawHashes),
                    Piece.Length = pieceLength\<rparr>
           in CreatePieceList_loop P rawHashes numPieces tot (Suc i) (pieces[i := p]))
      else Inr pieces)"
  by pat_completeness auto
termination
  by (relation "measure (\<lambda>(P, rawHashes, numPieces, tot, i, pieces). numPieces - i)") auto

definition zeroPiece :: Piece where
  "zeroPiece = \<lparr>Piece.Index = 0, Piece.Hash = replicate 20 0, Piece.Length = 0\<rparr>"

definition CreatePieceList :: "Torrent \<Rightarrow> panic + Piece list" where
  "CreatePieceList t =
     (let rawHashes = bytes_of (Pieces (Info t));
          numPieces = length rawHashes div 20;
          pieces = replicate numPieces zeroPiece
      in CreatePieceList_loop (PieceLength (Info t)) rawHashes numPieces (totalLength t) 0 pieces)"

text \<open>The piece that one iteration of the loop stores at position \<open>j\<close>.\<close>

definition pieceAt :: "int \<Rightarrow> byte list \<Rightarrow> nat \<Rightarrow> int \<Rightarrow> nat \<Rightarrow> Piece" where
  "pieceAt P rawHashes numPieces tot j =
     \<lparr>Piece.Index = int j,
      Piece.Hash = take 20 (drop (20 * j) rawHashes),
      Piece.Length = (if j = numPieces - 1 \<and> 0 < go_rem tot P then go_rem tot P else P)\<rparr>"

section \<open>Package torrent: downloading one piece from a peer\<close>

text \<open>The constants of \<open>attemptDownloadPiece\<close>.\<close>

definition maxBacklog :: int where "maxBacklog = 10"
definition blockSize :: int where "blockSize = 16384"

text \<open>What the coordinator hands to a worker.\<close>

record PieceWork =
  Index :: int
  Hash :: "byte list"
  Length :: int

text \<open>
  The environment of one call.  \<open>p2p.Read\<close> returns an error, a keep-alive
  (\<open>nil, nil\<close>) or a message with its id and payload; the peer decides which,
  so the model takes the list of read results as input.  Whether the write of
  the REQUEST for offset \<open>begin\<close> succeeds is given by a predicate on \<open>begin\<close>
  (every request of one call has its own offset).  The transcript of the
  connection lists each REQUEST written (index, begin, length) and the size of
  each PIECE block received, in order.
\<close>

datatype read_result = ReadError | KeepAlive | Message byte "byte list"

datatype wire = Request int int int | Block nat

text \<open>
  How the call ends: it returns the buffer, returns the error of a failed write
  or read, panics, or is still waiting in \<open>p2p.Read\<close> when the list of read
  results is used up.
\<close>

datatype outcome = Returned "byte list" | WriteFailed | ReadFailed | Panicked panic | AwaitingPeer

definition MsgPiece :: byte where "MsgPiece = 7"

text \<open>\<^verbatim>\<open>binary.BigEndian.Uint32\<close> of a four-byte slice.\<close>

definition Uint32 :: "byte list \<Rightarrow> nat" where
  "Uint32 b = unat (b ! 3) + 2 ^ 8 * unat (b ! 2) + 2 ^ 16 * unat (b ! 1) + 2 ^ 24 * unat (b ! 0)"

text \<open>
  The inner loop:
  \<^verbatim>\<open>
  for requested < pw.Length && (requested-downloaded) < maxBacklog*blockSize {
      length := blockSize
      if pw.Length-requested < length { length = pw.Length - requested }
      req := p2p.FormatRequest(pw.Index, requested, length)
      _, err := conn.Write(req.Serialize())
      if err != nil { return nil, err }
      requested += length
  }
  \<close>
  It returns whether every write succeeded, the new \<open>requested\<close> and the
  transcript.
\<close>

function refill :: "(int \<Rightarrow> bool) \<Rightarrow> PieceWork \<Rightarrow> int \<Rightarrow> int \<Rightarrow> wire list \<Rightarrow> bool \<times> int \<times> wire list" where
  "refill wr pw requested downloaded log =
     (if requested < PieceWork.Length pw \<and> requested - downloaded < maxBacklog * blockSize then
        let len = (if PieceWork.Length pw - requested < blockSize
                   then PieceWork.Length pw - requested else blockSize)
        in if \<not> wr requested then (False, requested, log)
           else refill wr pw (requested + len) downloaded
                  (log @ [Request (PieceWork.Index pw) requested len])
      else (True, requested, log))"
  by pat_completeness auto
termination
  by (relation "measure (\<lambda>(wr, pw, requested, downloaded, log). nat (PieceWork.Length pw - requested))")
     (auto simp: blockSize_def)

text \<open>
  The outer loop \<^verbatim>\<open>for downloaded < pw.Length\<close>: refill, read one message, and
  on a PIECE message copy \<^verbatim>\<open>msg.Payload[8:]\<close> to
  \<^verbatim>\<open>buf[begin:]\<close> and add its length to \<open>downloaded\<close>.
  \<^verbatim>\<open>msg.Payload[4:8]\<close> panics on a payload shorter than 8 bytes and
  \<^verbatim>\<open>buf[begin:]\<close> panics when \<open>begin > len(buf)\<close>.
\<close>

fun download_loop ::
  "(int \<Rightarrow> bool) \<Rightarrow> PieceWork \<Rightarrow> byte list \<Rightarrow> int \<Rightarrow> int \<Rightarrow> wire list \<Rightarrow> read_result list
     \<Rightarrow> outcome \<times> wire list" where
  "download_loop wr pw buf requested downloaded log reads =
     (if downloaded < PieceWork.Length pw then
        (case refill wr pw requested downloaded log of
           (False, requested', log') \<Rightarrow> (WriteFailed, log')
         | (True, requested', log') \<Rightarrow>
             (case reads of
                [] \<Rightarrow> (AwaitingPeer, log')
              | ReadError # rest \<Rightarrow> (ReadFailed, log')
              | KeepAlive # rest \<Rightarrow> download_loop wr pw buf requested' downloaded log' rest
              | Message ident payload # rest \<Rightarrow>
                  if ident = MsgPiece then
                    if length payload < 8 then (Panicked SliceBoundsOutOfRange, log')
                    else
                      let begin = Uint32 (take 4 (drop 4 payload));
                          blockData = drop 8 payload
                      in if begin > length buf then (Panicked SliceBoundsOutOfRange, log')
                         else download_loop wr pw (fst (copy_at buf begin blockData)) requested'
                                (downloaded + int (length blockData))
                                (log' @ [Block (length blockData)]) rest
                  else download_loop wr pw buf requested' downloaded log' rest))
      else (Returned buf, log))"

declare download_loop.simps [simp del] refill.simps [simp del]

text \<open>\<^verbatim>\<open>buf := make([]byte, pw.Length)\<close> panics on a negative length.\<close>

definition attemptDownloadPiece :: "(int \<Rightarrow> bool) \<Rightarrow> PieceWork \<Rightarrow> read_result list \<Rightarrow> outcome \<times> wire list" where
  "attemptDownloadPiece wr pw reads =
     (if PieceWork.Length pw < 0 then (Panicked MakeSliceLenOutOfRange, [])
      else download_loop wr pw (replicate (nat (PieceWork.Length pw)) 0) 0 0 [] reads)"

text \<open>
  Bytes requested minus bytes received over a transcript, the bound holding at
  every point (every prefix) of a transcript, and the peers that only deliver
  blocks having the length of a REQUEST sent before.
\<close>

fun outstanding :: "wire list \<Rightarrow> int" where
  "outstanding [] = 0"
| "outstanding (Request i b l # ws) = l + outstanding ws"
| "outstanding (Block n # ws) = outstanding ws - int n"

definition bounded_by :: "int \<Rightarrow> wire list \<Rightarrow> bool" where
  "bounded_by B log = (\<forall>n \<le> length log. outstanding (take n log) \<le> B)"

definition answers_requests :: "wire list \<Rightarrow> bool" where
  "answers_requests log =
     (\<forall>n < length log. \<forall>k. log ! n = Block k \<longrightarrow> (\<exists>i b. Request i b (int k) \<in> set (take n log)))"

text \<open>The loop invariant behind the exact bound.\<close>

definition tight_inv :: "int \<Rightarrow> int \<Rightarrow> int \<Rightarrow> wire list \<Rightarrow> bool" where
  "tight_inv L r d log \<longleftrightarrow>
     outstanding log = r - d \<and> r - d \<le> maxBacklog * blockSize
   \<and> (r = L \<or> (blockSize dvd r \<and> blockSize dvd d))
   \<and> (\<forall>i b l. Request i b l \<in> set log \<longrightarrow> l = blockSize \<or> r = L)
   \<and> bounded_by (maxBacklog * blockSize) log"

section \<open>Package torrent: the coordinator\<close>

text \<open>What a worker sends back.\<close>

record PieceResult =
  Index :: int
  Buf :: "byte list"

text \<open>
  The state the loop of \<open>Download\<close> changes: the done counter, the
  \<open>PieceWork\<close> values it has sent on the work queue, and the positional writes
  \<open>(offset, bytes)\<close> made on the output file, both in order.
\<close>

record coordinator =
  doneCount :: int
  workQueue :: "PieceWork list"
  written :: "(int \<times> byte list) list"

text \<open>
  How the loop ends: all pieces done, a failed \<open>WriteAt\<close>, a panic, or still
  waiting on the result channel when the list of results is used up.
\<close>

datatype download_end = Completed | DiskWriteFailed | DownloadPanicked panic | AwaitingResult

text \<open>
  \<^verbatim>\<open>&PieceWork{res.Index, pieces[res.Index].Hash, pieces[res.Index].Length}\<close>
\<close>

definition requeued :: "Piece list \<Rightarrow> PieceResult \<Rightarrow> PieceWork" where
  "requeued pieces res =
     \<lparr>PieceWork.Index = PieceResult.Index res,
      PieceWork.Hash = Piece.Hash (pieces ! nat (PieceResult.Index res)),
      PieceWork.Length = Piece.Length (pieces ! nat (PieceResult.Index res))\<rparr>"

text \<open>
  \<^verbatim>\<open>bytes.Equal(hash[:], pieces[res.Index].Hash[:])\<close> for
  \<^verbatim>\<open>hash := sha1.Sum(res.Buf)\<close>.  SHA-1 is a parameter of the model.
\<close>

definition hash_matches :: "(byte list \<Rightarrow> byte list) \<Rightarrow> Piece list \<Rightarrow> PieceResult \<Rightarrow> bool" where
  "hash_matches sha1 pieces res \<longleftrightarrow>
     sha1 (PieceResult.Buf res) = Piece.Hash (pieces ! nat (PieceResult.Index res))"

text \<open>
  \<open>res.Index\<close> is an index of \<open>pieces\<close>: \<^verbatim>\<open>pieces[res.Index]\<close> does not panic.
\<close>

definition in_range :: "Piece list \<Rightarrow> PieceResult \<Rightarrow> bool" where
  "in_range pieces res \<longleftrightarrow> 0 \<le> PieceResult.Index res \<and> PieceResult.Index res < int (length pieces)"

text \<open>
  \<^verbatim>\<open>
  for doneCount < len(pieces) {
      res := <-results
      hash := sha1.Sum(res.Buf)
      if !bytes.Equal(hash[:], pieces[res.Index].Hash[:]) {
          workQueue <- &PieceWork{res.Index, pieces[res.Index].Hash, pieces[res.Index].Length}
          continue
      }
      offset := int64(res.Index) * t.Info.PieceLength
      _, err := file.WriteAt(res.Buf, offset)
      if err != nil { return fmt.Errorf("failed writing to disk: %v", err) }
      doneCount++
  }
  \<close>
  The results arrive in the order of the input list; whether a positional write
  succeeds is a predicate of the model.  \<open>pieces[res.Index]\<close> panics out of
  range; the offset is a 64-bit product.
\<close>

fun Download_loop ::
  "(byte list \<Rightarrow> byte list) \<Rightarrow> (int \<Rightarrow> byte list \<Rightarrow> bool) \<Rightarrow> Piece list \<Rightarrow> int \<Rightarrow> coordinator
     \<Rightarrow> PieceResult list \<Rightarrow> download_end \<times> coordinator" where
  "Download_loop sha1 writeAt pieces pieceLength c results =
     (if doneCount c < int (length pieces) then
        (case results of
           [] \<Rightarrow> (AwaitingResult, c)
         | res # rest \<Rightarrow>
             if PieceResult.Index res < 0 \<or> PieceResult.Index res \<ge> int (length pieces)
             then (DownloadPanicked IndexOutOfRange, c)
             else if \<not> hash_matches sha1 pieces res
             then Download_loop sha1 writeAt pieces pieceLength
                    (c\<lparr>workQueue := workQueue c @ [requeued pieces res]\<rparr>) rest
             else
               let offset = wrap64 (PieceResult.Index res * pieceLength)
               in if \<not> writeAt offset (PieceResult.Buf res) then (DiskWriteFailed, c)
                  else Download_loop sha1 writeAt pieces pieceLength
                         (c\<lparr>written := written c @ [(offset, PieceResult.Buf res)],
                            doneCount := doneCount c + 1\<rparr>) rest)
      else (Completed, c))"

declare Download_loop.simps [simp del]

section \<open>Package bencode: the decoder\<close>

definition MaxStringLength :: int where "MaxStringLength = 10 * 1024 * 1024"
definition MaxDepth :: int where "MaxDepth = 50"

text \<open>The two error kinds of package \<open>strconv\<close>.\<close>

datatype num_error = ErrSyntax | ErrRange

text \<open>
  The errors of the decoder: the package's error variables, the formatted ones
  (unknown type identifier, string length over the limit, a wrapped
  \<open>strconv\<close> error, the wrappers for a dictionary key and a dictionary value),
  and a run-time panic.
\<close>

datatype error =
    ErrTooDeep | ErrInvalidIntegerFormat | ErrLeadingZero | ErrNegativeZero
  | ErrInvalidStringFormat | ErrTooShort | ErrInvalidListFormat | ErrInvalidDictFormat
  | ErrEmptyData
  | ErrUnknownType char
  | ErrStringTooLong
  | ErrInvalidInteger num_error
  | ErrInvalidDictKey error
  | ErrInvalidDictValue string error
  | ErrPanic panic

text \<open>
  The decoded values (\<^verbatim>\<open>any\<close> holding \<^verbatim>\<open>int64\<close>, \<^verbatim>\<open>[]byte\<close>,
  \<^verbatim>\<open>[]any\<close> or \<^verbatim>\<open>map[string]any\<close>).  A Go map has no order; it is kept
  as an association list with one entry per key, read with \<open>map_of\<close> and
  written with \<open>AList.update\<close>, which is \<^verbatim>\<open>result[key] = val\<close>.
\<close>

datatype bvalue = BInt int | BStr string | BList "bvalue list" | BDict "(string \<times> bvalue) list"

text \<open>\<^verbatim>\<open>bytes.IndexByte\<close>: the first position of the byte, \<open>None\<close> for -1.\<close>

definition IndexByte :: "string \<Rightarrow> char \<Rightarrow> nat option" where
  "IndexByte s c = (if c \<in> set s then Some (length (takeWhile (\<lambda>x. x \<noteq> c) s)) else None)"

text \<open>\<^verbatim>\<open>c >= '0' && c <= '9'\<close>\<close>

definition is_digit :: "char \<Rightarrow> bool" where
  "is_digit c \<longleftrightarrow> (48::nat) \<le> of_char c \<and> (of_char c :: nat) \<le> 57"

text \<open>
  \<^verbatim>\<open>strconv.ParseUint(s, 10, 64)\<close>: digits only, a syntax error on any other
  character, a range error once the value no longer fits 64 bits; the first
  of the two met from the left is returned.
\<close>

fun ParseUint_loop :: "int \<Rightarrow> string \<Rightarrow> num_error + int" where
  "ParseUint_loop n [] = Inr n"
| "ParseUint_loop n (c # cs) =
     (if \<not> is_digit c then Inl ErrSyntax
      else let n1 = n * 10 + (of_char c - 48)
           in if n1 \<ge> 2 ^ 64 then Inl ErrRange else ParseUint_loop n1 cs)"

definition ParseUint :: "string \<Rightarrow> num_error + int" where
  "ParseUint s = (if s = [] then Inl ErrSyntax else ParseUint_loop 0 s)"

text \<open>
  \<^verbatim>\<open>strconv.ParseInt(s, 10, 64)\<close>: an optional sign \<^verbatim>\<open>+\<close> or \<^verbatim>\<open>-\<close>, then
  \<open>ParseUint\<close>, then the check against \<open>2^63\<close>.
\<close>

definition ParseInt :: "string \<Rightarrow> num_error + int" where
  "ParseInt s =
     (if s = [] then Inl ErrSyntax
      else
        let neg = (s ! 0 = CHR ''-'');
            s1 = (if s ! 0 = CHR ''+'' \<or> s ! 0 = CHR ''-'' then drop 1 s else s)
        in case ParseUint s1 of
             Inl e \<Rightarrow> Inl e
           | Inr un \<Rightarrow>
               if \<not> neg \<and> un \<ge> 2 ^ 63 then Inl ErrRange
               else if neg \<and> un > 2 ^ 63 then Inl ErrRange
               else Inr (if neg then - un else un))"

text \<open>
  \<^verbatim>\<open>strconv.Atoi\<close> on a 64-bit platform accepts the same strings with the same
  values as \<open>ParseInt(s, 10, 64)\<close>.
\<close>

definition Atoi :: "string \<Rightarrow> num_error + int" where
  "Atoi s = ParseInt s"

text \<open>
  \<open>parseInteger\<close> and \<open>parseString\<close> do not touch the decoder, so they are
  functions of the bytes alone.  They return the value and the number of bytes
  consumed.  \<^verbatim>\<open>data[1:endIdx]\<close> panics when the first byte of the data is
  itself the \<^verbatim>\<open>e\<close>.
\<close>

definition parseInteger :: "string \<Rightarrow> error + int \<times> nat" where
  "parseInteger data =
     (if length data < 3 then Inl ErrInvalidIntegerFormat
      else case IndexByte data CHR ''e'' of
        None \<Rightarrow> Inl ErrInvalidIntegerFormat
      | Some endIdx \<Rightarrow>
          if endIdx < 1 then Inl (ErrPanic SliceBoundsOutOfRange)
          else
            let body = take (endIdx - 1) (drop 1 data)
            in if length body = 0 then Inl ErrInvalidIntegerFormat
               else if body ! 0 = CHR ''0'' \<and> length body > 1 then Inl ErrLeadingZero
               else if body ! 0 = CHR ''-'' \<and> length body = 1 then Inl ErrInvalidIntegerFormat
               else if body ! 0 = CHR ''-'' \<and> body ! 1 = CHR ''0'' \<and> length body = 2
                 then Inl ErrNegativeZero
               else if body ! 0 = CHR ''-'' \<and> body ! 1 = CHR ''0'' then Inl ErrLeadingZero
               else case ParseInt body of
                      Inl e \<Rightarrow> Inl (ErrInvalidInteger e)
                    | Inr num \<Rightarrow> Inr (num, endIdx + 1))"

definition parseString :: "string \<Rightarrow> error + string \<times> nat" where
  "parseString data =
     (case IndexByte data CHR '':'' of
        None \<Rightarrow> Inl ErrInvalidStringFormat
      | Some colonIdx \<Rightarrow>
          if colonIdx = 0 then Inl ErrInvalidStringFormat
          else
            let lenBuf = take colonIdx data
            in if lenBuf ! 0 = CHR ''0'' \<and> length lenBuf > 1 then Inl ErrLeadingZero
               else case Atoi lenBuf of
                      Inl e \<Rightarrow> Inl ErrInvalidStringFormat
                    | Inr len \<Rightarrow>
                        if len < 0 then Inl ErrInvalidStringFormat
                        else if len > MaxStringLength then Inl ErrStringTooLong
                        else
                          let totalNeeded = colonIdx + 1 + nat len
                          in if length data < totalNeeded then Inl ErrTooShort
                             else Inr (take (nat len) (drop (colonIdx + 1) data), totalNeeded))"

text \<open>The decoder: the input, the nesting depth, and the captured \<open>info\<close> bytes.\<close>

record Decoder =
  data :: string
  depth :: int
  RawInfo :: string

definition NewDecoder :: "string \<Rightarrow> Decoder" where
  "NewDecoder bytes = \<lparr>data = bytes, depth = 0, RawInfo = []\<rparr>"

text \<open>
  \<open>parseValue\<close>, \<open>parseList\<close> and \<open>parseDict\<close> call each other and change the
  decoder, so they pass it along and return it.  Their recursion is bounded by a
  fuel argument: \<open>None\<close> means that the fuel ran out, and the value of any run
  that ends is independent of the fuel (\<open>parseValue_fuel_mono\<close> below);
  \<open>Decode\<close> supplies enough fuel for its input (\<open>Decode_returns\<close> below).  The
  two loops take the element parser \<open>pv\<close>, which is \<open>parseValue\<close>, as an argument.
\<close>

type_synonym 'a parsed = "((error + 'a \<times> nat) \<times> Decoder) option"

text \<open>\<^verbatim>\<open>defer func() { d.depth-- }()\<close>: on every way out of the function.\<close>

definition leave :: "'a parsed \<Rightarrow> 'a parsed" where
  "leave r = map_option (\<lambda>(x, d). (x, d\<lparr>depth := depth d - 1\<rparr>)) r"

fun parseList_loop ::
  "(Decoder \<Rightarrow> string \<Rightarrow> bvalue parsed) \<Rightarrow> nat \<Rightarrow> Decoder \<Rightarrow> string \<Rightarrow> bvalue list \<Rightarrow> nat
     \<Rightarrow> (bvalue list) parsed" where
  "parseList_loop pv 0 d bytes result currentPosition = None"
| "parseList_loop pv (Suc fuel) d bytes result currentPosition =
     (if currentPosition < length bytes \<and> bytes ! currentPosition \<noteq> CHR ''e'' then
        (case pv d (drop currentPosition bytes) of
           None \<Rightarrow> None
         | Some (Inl e, d1) \<Rightarrow> Some (Inl e, d1)
         | Some (Inr (val, consumed), d1) \<Rightarrow>
             parseList_loop pv fuel d1 bytes (result @ [val]) (currentPosition + consumed))
      else Some (Inr (result, currentPosition), d))"

definition parseList ::
  "(Decoder \<Rightarrow> string \<Rightarrow> bvalue parsed) \<Rightarrow> nat \<Rightarrow> Decoder \<Rightarrow> string \<Rightarrow> bvalue parsed" where
  "parseList pv fuel d bytes =
     leave
       (let d1 = d\<lparr>depth := depth d + 1\<rparr>
        in if depth d1 > MaxDepth then Some (Inl ErrTooDeep, d1)
           else if length bytes < 2 \<or> bytes ! 0 \<noteq> CHR ''l'' then Some (Inl ErrInvalidListFormat, d1)
           else
             (case parseList_loop pv fuel d1 bytes [] 1 of
                None \<Rightarrow> None
              | Some (Inl e, d2) \<Rightarrow> Some (Inl e, d2)
              | Some (Inr (result, currentPosition), d2) \<Rightarrow>
                  if currentPosition \<ge> length bytes \<or> bytes ! currentPosition \<noteq> CHR ''e''
                  then Some (Inl ErrInvalidListFormat, d2)
                  else Some (Inr (BList result, currentPosition + 1), d2)))"

fun parseDict_loop ::
  "(Decoder \<Rightarrow> string \<Rightarrow> bvalue parsed) \<Rightarrow> nat \<Rightarrow> Decoder \<Rightarrow> string \<Rightarrow> (string \<times> bvalue) list
     \<Rightarrow> nat \<Rightarrow> ((string \<times> bvalue) list) parsed" where
  "parseDict_loop pv 0 d bytes result currentPosition = None"
| "parseDict_loop pv (Suc fuel) d bytes result currentPosition =
     (if currentPosition < length bytes \<and> bytes ! currentPosition \<noteq> CHR ''e'' then
        (case parseString (drop currentPosition bytes) of
           Inl e \<Rightarrow> Some (Inl (ErrInvalidDictKey e), d)
         | Inr (key, consumedKey) \<Rightarrow>
             let valuePosition = currentPosition + consumedKey
             in if valuePosition \<ge> length bytes then Some (Inl ErrInvalidDictFormat, d)
                else
                  (case pv d (drop valuePosition bytes) of
                     None \<Rightarrow> None
                   | Some (Inl e, d1) \<Rightarrow> Some (Inl (ErrInvalidDictValue key e), d1)
                   | Some (Inr (val, consumedVal), d1) \<Rightarrow>
                       parseDict_loop pv fuel
                         (if key = ''info'' \<and> depth d1 = 1
                          then d1\<lparr>RawInfo := take consumedVal (drop valuePosition bytes)\<rparr>
                          else d1)
                         bytes (AList.update key val result) (valuePosition + consumedVal)))
      else Some (Inr (result, currentPosition), d))"

definition parseDict ::
  "(Decoder \<Rightarrow> string \<Rightarrow> bvalue parsed) \<Rightarrow> nat \<Rightarrow> Decoder \<Rightarrow> string \<Rightarrow> bvalue parsed" where
  "parseDict pv fuel d bytes =
     leave
       (let d1 = d\<lparr>depth := depth d + 1\<rparr>
        in if depth d1 > MaxDepth then Some (Inl ErrTooDeep, d1)
           else if length bytes < 2 \<or> bytes ! 0 \<noteq> CHR ''d'' then Some (Inl ErrInvalidDictFormat, d1)
           else
             (case parseDict_loop pv fuel d1 bytes [] 1 of
                None \<Rightarrow> None
              | Some (Inl e, d2) \<Rightarrow> Some (Inl e, d2)
              | Some (Inr (result, currentPosition), d2) \<Rightarrow>
                  if currentPosition \<ge> length bytes \<or> bytes ! currentPosition \<noteq> CHR ''e''
                  then Some (Inl ErrInvalidDictFormat, d2)
                  else Some (Inr (BDict result, currentPosition + 1), d2)))"

primrec parseValue :: "nat \<Rightarrow> Decoder \<Rightarrow> string \<Rightarrow> bvalue parsed" where
  "parseValue 0 d bytes = None"
| "parseValue (Suc fuel) d bytes =
     (if length bytes = 0 then Some (Inl ErrEmptyData, d)
      else if bytes ! 0 = CHR ''i'' then
        Some (case parseInteger bytes of Inl e \<Rightarrow> Inl e | Inr (n, used) \<Rightarrow> Inr (BInt n, used), d)
      else if is_digit (bytes ! 0) then
        Some (case parseString bytes of Inl e \<Rightarrow> Inl e | Inr (s, used) \<Rightarrow> Inr (BStr s, used), d)
      else if bytes ! 0 = CHR ''l'' then parseList (parseValue fuel) fuel d bytes
      else if bytes ! 0 = CHR ''d'' then parseDict (parseValue fuel) fuel d bytes
      else Some (Inl (ErrUnknownType (bytes ! 0)), d))"

text \<open>
  \<^verbatim>\<open>val, _, err := d.parseValue(d.data); return val, err\<close>
\<close>

definition Decode_fuel :: "nat \<Rightarrow> Decoder \<Rightarrow> ((error + bvalue) \<times> Decoder) option" where
  "Decode_fuel fuel d =
     (case parseValue fuel d (data d) of
        None \<Rightarrow> None
      | Some (Inl e, d1) \<Rightarrow> Some (Inl e, d1)
      | Some (Inr (val, consumed), d1) \<Rightarrow> Some (Inr val, d1))"

definition Decode :: "Decoder \<Rightarrow> ((error + bvalue) \<times> Decoder) option" where
  "Decode d = Decode_fuel (length (data d) + 1) d"

section \<open>Package torrent: opening a metainfo file\<close>

datatype open_error =
    ReadFileError | DecodeError error | InvalidTorrentFormat | MissingInfoDict
  | OpenPanic panic | NoReturn

text \<open>The loop over \<open>files\<close>; each type assertion panics on another type or a missing key.\<close>

fun Open_files :: "File list \<Rightarrow> bvalue list \<Rightarrow> panic + File list" where
  "Open_files acc [] = Inr acc"
| "Open_files acc (f # fs) =
     (case f of
        BDict fDict \<Rightarrow>
          (case map_of fDict ''length'' of
             Some (BInt len) \<Rightarrow> Open_files (acc @ [\<lparr>File.Length = len, Path = []\<rparr>]) fs
           | _ \<Rightarrow> Inl TypeAssertionFailed)
      | _ \<Rightarrow> Inl TypeAssertionFailed)"

text \<open>
  \<open>Open\<close> reads the file at \<open>path\<close> (the file system is a partial map from
  paths to contents), decodes it, fills the \<open>Torrent\<close> from the dictionary and
  returns it with \<^verbatim>\<open>sha1.Sum(decoder.RawInfo)\<close>.  SHA-1 is a parameter.
\<close>

definition Open ::
  "(byte list \<Rightarrow> byte list) \<Rightarrow> (string \<rightharpoonup> string) \<Rightarrow> string \<Rightarrow> open_error + Torrent \<times> byte list" where
  "Open sha1 fs path =
     (case fs path of
        None \<Rightarrow> Inl ReadFileError
      | Some bytes \<Rightarrow>
          (case Decode (NewDecoder bytes) of
             None \<Rightarrow> Inl NoReturn
           | Some (Inl e, decoder) \<Rightarrow> Inl (DecodeError e)
           | Some (Inr result, decoder) \<Rightarrow>
               (case result of
                  BDict fullDict \<Rightarrow>
                    let announce = (case map_of fullDict ''announce'' of
                                      Some (BStr a) \<Rightarrow> a | _ \<Rightarrow> [])
                    in (case map_of fullDict ''info'' of
                          Some (BDict infoMap) \<Rightarrow>
                            (case (map_of infoMap ''name'', map_of infoMap ''piece length'',
                                   map_of infoMap ''pieces'') of
                               (Some (BStr name), Some (BInt pieceLength), Some (BStr pieces)) \<Rightarrow>
                                 (case (case map_of infoMap ''length'' of
                                          Some (BInt len) \<Rightarrow> Inr (len, [])
                                        | _ \<Rightarrow>
                                            (case map_of infoMap ''files'' of
                                               Some (BList files) \<Rightarrow>
                                                 map_sum id (Pair 0) (Open_files [] files)
                                             | _ \<Rightarrow> Inr (0, []))) of
                                    Inl p \<Rightarrow> Inl (OpenPanic p)
                                  | Inr (len, files) \<Rightarrow>
                                      Inr (\<lparr>Announce = announce,
                                            Info = \<lparr>PieceLength = pieceLength, Pieces = pieces,
                                                    Name = name, InfoDict.Length = len,
                                                    Files = files\<rparr>\<rparr>,
                                           sha1 (bytes_of (RawInfo decoder))))
                             | _ \<Rightarrow> Inl (OpenPanic TypeAssertionFailed))
                        | _ \<Rightarrow> Inl MissingInfoDict)
                | _ \<Rightarrow> Inl InvalidTorrentFormat)))"

section \<open>Package main\<close>

text \<open>
  \<^verbatim>\<open>
  func main() {
      t, infoHash, err := torrent.Open("debian-13.3.0-amd64-netinst.iso.torrent")
      if err != nil { log.Fatal(err) }
      ...
  \<close>
  The model takes the command line (\<^verbatim>\<open>os.Args\<close>) and the file system and
  stops after this first statement: either the fatal error, or the torrent and
  info-hash the rest of \<open>main\<close> goes on with.
\<close>

datatype main_opened = Fatal open_error | Opened Torrent "byte list"

definition main ::
  "string list \<Rightarrow> (byte list \<Rightarrow> byte list) \<Rightarrow> (string \<rightharpoonup> string) \<Rightarrow> main_opened" where
  "main args sha1 fs =
     (case Open sha1 fs ''debian-13.3.0-amd64-netinst.iso.torrent'' of
        Inl err \<Rightarrow> Fatal err
      | Inr (t, infoHash) \<Rightarrow> Opened t infoHash)"

section \<open>Properties of an element parser used in the proofs\<close>

text \<open>A parser advances when every successful parse consumes at least one byte and no more than it was given.\<close>

definition advances :: "(Decoder \<Rightarrow> string \<Rightarrow> bvalue parsed) \<Rightarrow> bool" where
  "advances pv \<longleftrightarrow> (\<forall>d s v n d'. pv d s = Some (Inr (v, n), d') \<longrightarrow> 0 < n \<and> n \<le> length s)"

text \<open>
  A parser keeps the decoder when it returns it with the depth and the input it
  was given, and, when called at depth 1 or deeper, with the same captured bytes.
\<close>

definition keeps :: "(Decoder \<Rightarrow> string \<Rightarrow> bvalue parsed) \<Rightarrow> bool" where
  "keeps pv \<longleftrightarrow>
     (\<forall>d s r d'. pv d s = Some (r, d') \<longrightarrow>
        depth d' = depth d \<and> data d' = data d \<and> (1 \<le> depth d \<longrightarrow> RawInfo d' = RawInfo d))"

text \<open>
  A parser is determined by the bytes it consumes when a successful parse that
  consumed \<open>n\<close> bytes gives the same result on every input with the same first
  \<open>n\<close> bytes.
\<close>

definition prefix_determined :: "(Decoder \<Rightarrow> string \<Rightarrow> bvalue parsed) \<Rightarrow> bool" where
  "prefix_determined pv \<longleftrightarrow>
     (\<forall>d s v n d' s'. pv d s = Some (Inr (v, n), d') \<longrightarrow> take n s' = take n s \<longrightarrow>
        pv d s' = Some (Inr (v, n), d'))"

text \<open>
  No parse function reads the field \<open>data\<close> of the decoder (only \<open>Decode\<close>
  does): a run on a decoder with another \<open>data\<close> is the same run.
\<close>

definition with_data :: "string \<Rightarrow> 'a parsed \<Rightarrow> 'a parsed" where
  "with_data x r = map_option (\<lambda>(y, d'). (y, d'\<lparr>data := x\<rparr>)) r"


text \<open>
  Below the top level a parse depends on the decoder through its depth only: the
  result (value and bytes consumed, or error) is the same for two decoders of the
  same depth, at depth 1 or deeper.
\<close>

definition depth_only :: "(Decoder \<Rightarrow> string \<Rightarrow> 'a parsed) \<Rightarrow> bool" where
  "depth_only pv \<longleftrightarrow>
     (\<forall>d e s. depth d = depth e \<longrightarrow> 1 \<le> depth d \<longrightarrow>
        map_option fst (pv d s) = map_option fst (pv e s))"

text \<open>
  The layout of the top-level dictionary, read off the input with the key parser
  and the value parser alone.  The values of the top-level dictionary are parsed
  at depth 1; \<open>nested\<close> is a decoder at that depth.  \<open>value_at bytes start v n\<close>:
  the value parser, started at offset \<open>start\<close> of the input, returns \<open>v\<close> and
  consumes \<open>n\<close> bytes, so the value occupies \<open>[start, start + n)\<close>.
\<close>

definition nested :: Decoder where
  "nested = \<lparr>data = [], depth = 1, RawInfo = []\<rparr>"

definition value_at :: "string \<Rightarrow> nat \<Rightarrow> bvalue \<Rightarrow> nat \<Rightarrow> bool" where
  "value_at bytes start v n \<longleftrightarrow>
     parseValue (length bytes + 1) nested (drop start bytes) = Some (Inr (v, n), nested)"

text \<open>
  An entry \<open>(key, start, n, v)\<close>: a key, and the offset, length and value of the
  value that follows it.  \<open>entries_between bytes pos es p\<close>: from offset \<open>pos\<close> the
  input holds the entries \<open>es\<close>, one after the other with nothing between them,
  each a key string followed at once by its value, and they end at offset \<open>p\<close>.
  The dictionary that these entries build (a later entry replaces an earlier one
  with the same key), and the byte range of the value of the last entry with key
  \<open>info\<close>.
\<close>

type_synonym entry = "string \<times> nat \<times> nat \<times> bvalue"

fun entries_between :: "string \<Rightarrow> nat \<Rightarrow> entry list \<Rightarrow> nat \<Rightarrow> bool" where
  "entries_between bytes pos [] p \<longleftrightarrow> p = pos"
| "entries_between bytes pos ((key, start, n, v) # es) p \<longleftrightarrow>
     pos < length bytes \<and> bytes ! pos \<noteq> CHR ''e'' \<and>
     (case parseString (drop pos bytes) of
        Inl e \<Rightarrow> False
      | Inr (k, consumedKey) \<Rightarrow>
          k = key \<and> start = pos + consumedKey \<and> start < length bytes \<and>
          value_at bytes start v n \<and> entries_between bytes (start + n) es p)"

definition entries_dict :: "entry list \<Rightarrow> (string \<times> bvalue) list \<Rightarrow> (string \<times> bvalue) list" where
  "entries_dict es res = fold (\<lambda>(key, start, n, v). AList.update key v) es res"

definition entries_info :: "string \<Rightarrow> entry list \<Rightarrow> string \<Rightarrow> string" where
  "entries_info bytes es raw =
     fold (\<lambda>(key, start, n, v) r. if key = ''info'' then take n (drop start bytes) else r) es raw"

section \<open>Properties\<close>

subsection \<open>Bitfield\<close>

text \<open>
  C7 (as amended).  \<open>HasPiece\<close> computes \<open>(bf[byteIndex] >> (7 - offset)) % 1\<close>,
  which is zero for every byte, so it answers \<open>false\<close> for every bitfield and
  every index, in range or not.
\<close>

theorem HasPiece_always_false: "HasPiece bf index = False"
  by (simp add: HasPiece_def Let_def)

text \<open>
  C7 (as stated) fails: on the one-byte bitfield \<open>0xFF\<close> and index 0 a shift by
  zero would leave the non-zero byte \<open>0xFF\<close>, whose top bit is set, and answer
  \<open>true\<close>; the source's expression answers \<open>false\<close>.
\<close>

theorem HasPiece_shift_by_zero_counterexample:
  "HasPiece_shift_by_zero [255] 0 = True \<and> bit (255 :: byte) 7 \<and> HasPiece [255] 0 = False"
  by (simp add: HasPiece_def HasPiece_shift_by_zero_def go_quot_def go_rem_def bit_iff_odd)

subsection \<open>Handshake layout\<close>

lemma copy_at_app:
  "at = length pre \<Longrightarrow> length src \<le> length rest \<Longrightarrow>
   copy_at (pre @ rest) at src = (pre @ src @ drop (length src) rest, length src)"
  by (simp add: copy_at_def Let_def min_absorb2)

lemma length_bytes_of [simp]: "length (bytes_of s) = length s"
  by (simp add: bytes_of_def)

lemma Serialize_layout:
  assumes s: "length (Pstr hs) = 19"
    and h: "length (InfoHash hs) = 20"
    and p: "length (PeerID hs) = 20"
  shows "Serialize hs = [19] @ bytes_of (Pstr hs) @ replicate 8 0 @ InfoHash hs @ PeerID hs"
proof -
  let ?ps = "bytes_of (Pstr hs)"
  let ?h = "InfoHash hs"
  let ?p = "PeerID hs"
  have lps: "length ?ps = 19" using s by simp
  have b0: "(replicate 68 (0::byte))[0 := 19] = [19] @ replicate 67 0"
    by (simp add: numeral_eq_Suc)
  have c1: "copy_at ([19] @ replicate 67 0) 1 ?ps = ([19] @ ?ps @ replicate 48 0, 19)"
    using copy_at_app [of 1 "[19]" ?ps "replicate 67 (0::byte)"] lps by simp
  have c2: "copy_at ([19] @ ?ps @ replicate 48 0) 20 (replicate 8 (0::byte))
            = ([19] @ ?ps @ replicate 8 0 @ replicate 40 0, 8)"
    using copy_at_app [of 20 "[19] @ ?ps" "replicate 8 (0::byte)" "replicate 48 (0::byte)"] lps
    by simp
  have c3: "copy_at ([19] @ ?ps @ replicate 8 0 @ replicate 40 0) 28 ?h
            = ([19] @ ?ps @ replicate 8 0 @ ?h @ replicate 20 0, 20)"
    using copy_at_app [of 28 "[19] @ ?ps @ replicate 8 0" ?h "replicate 40 (0::byte)"] h lps
    by simp
  have c4: "copy_at ([19] @ ?ps @ replicate 8 0 @ ?h @ replicate 20 0) 48 ?p
            = ([19] @ ?ps @ replicate 8 0 @ ?h @ ?p, 20)"
    using copy_at_app [of 48 "[19] @ ?ps @ replicate 8 0 @ ?h" ?p "replicate 20 (0::byte)"] h p lps
    by simp
  show ?thesis
    unfolding Serialize_def Let_def s
    using b0 c1 c2 c3 c4 by simp
qed

lemma Serialize_NewHandshake_eq:
  assumes "length h = 20" and "length p = 20"
  shows "Serialize (NewHandshake h p)
           = [19] @ bytes_of ''BitTorrent protocol'' @ replicate 8 0 @ h @ p"
  using Serialize_layout [of "NewHandshake h p"] assms by (simp add: NewHandshake_def)

text \<open>
  C6.  For every 20-byte info-hash \<open>h\<close> and 20-byte peer id \<open>p\<close> (the Go type
  of both is \<^verbatim>\<open>[20]byte\<close>), the serialised handshake has 68 bytes: byte 0 is
  19, bytes 1..20 are the protocol string, bytes 20..28 are zero, bytes 28..48
  are \<open>h\<close> and bytes 48..68 are \<open>p\<close> (ranges half-open).
\<close>

theorem Serialize_NewHandshake:
  assumes "length h = 20" and "length p = 20"
  shows "length (Serialize (NewHandshake h p)) = 68
       \<and> Serialize (NewHandshake h p) ! 0 = 19
       \<and> take 19 (drop 1 (Serialize (NewHandshake h p))) = bytes_of ''BitTorrent protocol''
       \<and> take 8 (drop 20 (Serialize (NewHandshake h p))) = replicate 8 0
       \<and> take 20 (drop 28 (Serialize (NewHandshake h p))) = h
       \<and> take 20 (drop 48 (Serialize (NewHandshake h p))) = p"
  using assms by (simp add: Serialize_NewHandshake_eq)

theorem Serialize_NewHandshake_witness:
  "length (replicate 20 (1::byte)) = 20 \<and> length (replicate 20 (2::byte)) = 20
   \<and> length (Serialize (NewHandshake (replicate 20 1) (replicate 20 2))) = 68
   \<and> Serialize (NewHandshake (replicate 20 1) (replicate 20 2)) ! 0 = 19
   \<and> take 19 (drop 1 (Serialize (NewHandshake (replicate 20 1) (replicate 20 2))))
       = bytes_of ''BitTorrent protocol''
   \<and> take 8 (drop 20 (Serialize (NewHandshake (replicate 20 1) (replicate 20 2))))
       = replicate 8 0
   \<and> take 20 (drop 28 (Serialize (NewHandshake (replicate 20 1) (replicate 20 2))))
       = replicate 20 1
   \<and> take 20 (drop 48 (Serialize (NewHandshake (replicate 20 1) (replicate 20 2))))
       = replicate 20 2"
  using Serialize_NewHandshake [of "replicate 20 1" "replicate 20 2"] by simp

subsection \<open>Piece progress\<close>

lemma AddBlock_effect:
  "AddBlock pp b blk = Inr pp' \<Longrightarrow>
     length (PieceProgress.Buf pp') = length (PieceProgress.Buf pp)
   \<and> PieceProgress.Downloaded pp' = PieceProgress.Downloaded pp + int (length blk)"
  by (auto simp: AddBlock_def copy_at_def Let_def split: if_splits)

lemma AddBlocks_effect:
  "AddBlocks pp calls = Inr pp' \<Longrightarrow>
     length (PieceProgress.Buf pp') = length (PieceProgress.Buf pp)
   \<and> PieceProgress.Downloaded pp'
       = PieceProgress.Downloaded pp + (\<Sum>c\<leftarrow>calls. int (length (snd c)))"
proof (induction calls arbitrary: pp)
  case Nil
  then show ?case by simp
next
  case (Cons c calls)
  obtain b blk where c: "c = (b, blk)" by (cases c)
  from Cons.prems c obtain pp1
    where 1: "AddBlock pp b blk = Inr pp1" and 2: "AddBlocks pp1 calls = Inr pp'"
    by (auto split: sum.splits)
  from AddBlock_effect [OF 1] Cons.IH [OF 2] c show ?case by simp
qed

text \<open>
  C8 (as amended).  For every progress record reached from
  \<open>NewPieceProgress index len\<close> by a sequence of \<open>AddBlock\<close> calls whose block
  lengths add up to at most \<open>len\<close>, \<open>downloaded \<le> len(buf)\<close> holds; the buffer
  keeps its length, \<open>downloaded\<close> is the sum of the block lengths, and
  \<open>IsComplete\<close> is true exactly when \<open>downloaded = len(buf)\<close>.
\<close>

theorem PieceProgress_invariant:
  assumes "NewPieceProgress index len = Inr pp0"
    and "AddBlocks pp0 calls = Inr pp"
    and "(\<Sum>c\<leftarrow>calls. int (length (snd c))) \<le> len"
  shows "PieceProgress.Downloaded pp \<le> int (length (PieceProgress.Buf pp))
       \<and> int (length (PieceProgress.Buf pp)) = len
       \<and> PieceProgress.Downloaded pp = (\<Sum>c\<leftarrow>calls. int (length (snd c)))
       \<and> (IsComplete pp \<longleftrightarrow>
            PieceProgress.Downloaded pp = int (length (PieceProgress.Buf pp)))"
proof -
  from assms(1) have len: "0 \<le> len"
    and pp0: "length (PieceProgress.Buf pp0) = nat len" "PieceProgress.Downloaded pp0 = 0"
    by (auto simp: NewPieceProgress_def split: if_splits)
  from AddBlocks_effect [OF assms(2)] pp0 len assms(3) show ?thesis
    by (simp add: IsComplete_def)
qed

theorem PieceProgress_invariant_witness:
  "NewPieceProgress 0 4 = Inr \<lparr>PieceProgress.Index = 0, Buf = [0, 0, 0, 0], Downloaded = 0\<rparr>
   \<and> AddBlocks \<lparr>PieceProgress.Index = 0, Buf = [0, 0, 0, 0], Downloaded = 0\<rparr>
        [(0, [1, 2]), (2, [3])]
       = Inr \<lparr>PieceProgress.Index = 0, Buf = [1, 2, 3, 0], Downloaded = 3\<rparr>
   \<and> PieceProgress.Downloaded \<lparr>PieceProgress.Index = 0, Buf = [1, 2, 3, 0], Downloaded = 3\<rparr>
       \<le> int (length (PieceProgress.Buf
             \<lparr>PieceProgress.Index = 0, Buf = [1, 2, 3, 0], Downloaded = 3\<rparr>))
   \<and> \<not> IsComplete \<lparr>PieceProgress.Index = 0, Buf = [1, 2, 3, 0], Downloaded = 3\<rparr>"
proof -
  have 1: "NewPieceProgress 0 4
             = Inr \<lparr>PieceProgress.Index = 0, Buf = [0, 0, 0, 0], Downloaded = 0\<rparr>"
    by (simp add: NewPieceProgress_def numeral_eq_Suc)
  have 2: "AddBlocks \<lparr>PieceProgress.Index = 0, Buf = [0, 0, 0, 0], Downloaded = 0\<rparr>
             [(0, [1, 2]), (2, [3])]
           = Inr \<lparr>PieceProgress.Index = 0, Buf = [1, 2, 3, 0], Downloaded = 3\<rparr>"
    by (simp add: AddBlock_def copy_at_def)
  have 3: "(\<Sum>c\<leftarrow>[(0::int, [1, 2 :: byte]), (2, [3])]. int (length (snd c))) \<le> 4"
    by simp
  from PieceProgress_invariant [OF 1 2 3] 1 2 show ?thesis by simp
qed

text \<open>
  C8 (as stated) fails: \<open>AddBlock\<close> adds \<open>len(block)\<close> to \<open>downloaded\<close> even when
  the block does not fit.  One five-byte block added to a four-byte piece leaves
  \<open>downloaded = 5 > 4 = len(buf)\<close>.
\<close>

theorem PieceProgress_invariant_counterexample:
  "NewPieceProgress 0 4 = Inr \<lparr>PieceProgress.Index = 0, Buf = [0, 0, 0, 0], Downloaded = 0\<rparr>
   \<and> AddBlocks \<lparr>PieceProgress.Index = 0, Buf = [0, 0, 0, 0], Downloaded = 0\<rparr>
        [(0, [1, 2, 3, 4, 5])]
       = Inr \<lparr>PieceProgress.Index = 0, Buf = [1, 2, 3, 4], Downloaded = 5\<rparr>
   \<and> \<not> PieceProgress.Downloaded \<lparr>PieceProgress.Index = 0, Buf = [1, 2, 3, 4], Downloaded = 5\<rparr>
       \<le> int (length (PieceProgress.Buf
             \<lparr>PieceProgress.Index = 0, Buf = [1, 2, 3, 4], Downloaded = 5\<rparr>))"
  by (simp add: NewPieceProgress_def AddBlock_def copy_at_def numeral_eq_Suc)

subsection \<open>The piece list\<close>

lemma wrap64_add_left: "wrap64 (wrap64 a + b) = wrap64 (a + b)"
  unfolding wrap64_def by (simp add: mod_simps algebra_simps)

lemma wrap64_id: "- (2 ^ 63) \<le> x \<Longrightarrow> x < 2 ^ 63 \<Longrightarrow> wrap64 x = x"
  by (simp add: wrap64_def)

lemma sumFiles_wrap:
  "sumFiles (wrap64 a) fs = wrap64 (a + sum_list (map File.Length fs))"
  by (induction fs arbitrary: a) (simp_all add: add.assoc wrap64_add_left)

lemma sumFiles_0: "sumFiles 0 fs = wrap64 (sum_list (map File.Length fs))"
  using sumFiles_wrap [of 0 fs] by (simp add: wrap64_id)

lemma go_rem_nonneg: "0 \<le> a \<Longrightarrow> 0 < b \<Longrightarrow> go_rem a b = a mod b"
  by (cases "a = 0") (simp_all add: go_rem_def)

lemma CreatePieceList_loop_eq:
  "i \<le> n \<Longrightarrow> length pieces = n \<Longrightarrow> P \<noteq> 0 \<Longrightarrow>
   CreatePieceList_loop P raw n T i pieces
     = Inr (take i pieces @ map (pieceAt P raw n T) [i..<n])"
proof (induction P raw n T i pieces rule: CreatePieceList_loop.induct)
  case (1 P raw n T i pieces)
  show ?case
  proof (cases "i < n")
    case True
    let ?p = "pieceAt P raw n T i"
    have "CreatePieceList_loop P raw n T i pieces
            = CreatePieceList_loop P raw n T (Suc i) (pieces[i := ?p])"
      using True "1.prems"
      by (subst CreatePieceList_loop.simps) (simp add: pieceAt_def Let_def mult.commute)
    also have "\<dots> = Inr (take (Suc i) (pieces[i := ?p]) @ map (pieceAt P raw n T) [Suc i..<n])"
      using True "1.prems"
      by (intro "1.IH" [where x = "Piece.Length ?p" and xa = "?p"])
         (auto simp: pieceAt_def mult.commute)
    also have "take (Suc i) (pieces[i := ?p]) = take i pieces @ [?p]"
      using True "1.prems" by (simp add: take_Suc_conv_app_nth)
    finally show ?thesis using True by (simp add: upt_conv_Cons)
  next
    case False
    then show ?thesis using "1.prems" by (subst CreatePieceList_loop.simps) simp
  qed
qed

text \<open>
  C3.  For a torrent with a non-zero piece length \<open>P\<close>, \<open>CreatePieceList\<close> returns
  \<open>N = |pieces| / 20\<close> pieces; piece \<open>i\<close> has index \<open>i\<close>, its hash is bytes
  \<open>[20i, 20(i+1))\<close> of the pieces blob, and its length is \<open>P\<close>, except that the
  last piece has length \<open>T % P\<close> when that remainder is positive.  \<open>T\<close> is
  \<open>Info.Length\<close> when positive and otherwise the 64-bit sum of the file lengths.
  The remainder is Go's; for \<open>T \<ge> 0\<close> and \<open>P > 0\<close> it is \<open>T mod P\<close>.
\<close>

theorem CreatePieceList_pieces:
  assumes "PieceLength (Info t) \<noteq> 0"
  shows "(let P = PieceLength (Info t);
              blob = bytes_of (Pieces (Info t));
              N = length blob div 20;
              T = (if 0 < InfoDict.Length (Info t) then InfoDict.Length (Info t)
                   else wrap64 (sum_list (map File.Length (Files (Info t)))))
          in CreatePieceList t =
               Inr (map (\<lambda>i. \<lparr>Piece.Index = int i,
                                Piece.Hash = take 20 (drop (20 * i) blob),
                                Piece.Length =
                                  (if i = N - 1 \<and> 0 < go_rem T P then go_rem T P else P)\<rparr>)
                        [0..<N])
             \<and> (0 \<le> T \<longrightarrow> 0 < P \<longrightarrow> go_rem T P = T mod P))"
proof -
  have T: "totalLength t = (if 0 < InfoDict.Length (Info t) then InfoDict.Length (Info t)
                   else wrap64 (sum_list (map File.Length (Files (Info t)))))"
    by (simp add: totalLength_def sumFiles_0)
  have "CreatePieceList t =
          Inr (map (pieceAt (PieceLength (Info t)) (bytes_of (Pieces (Info t)))
                      (length (bytes_of (Pieces (Info t))) div 20) (totalLength t))
                 [0..<length (bytes_of (Pieces (Info t))) div 20])"
    unfolding CreatePieceList_def Let_def
    by (subst CreatePieceList_loop_eq) (use assms in simp_all)
  then show ?thesis
    unfolding Let_def T pieceAt_def by (simp add: go_rem_nonneg)
qed

theorem CreatePieceList_pieces_witness:
  "PieceLength (Info \<lparr>Announce = ''u'',
       Info = \<lparr>PieceLength = 32768, Pieces = replicate 80 CHR ''a'', Name = ''f'',
               InfoDict.Length = 108304, Files = []\<rparr>\<rparr>) \<noteq> 0
   \<and> CreatePieceList \<lparr>Announce = ''u'',
       Info = \<lparr>PieceLength = 32768, Pieces = replicate 80 CHR ''a'', Name = ''f'',
               InfoDict.Length = 108304, Files = []\<rparr>\<rparr>
     = Inr [\<lparr>Piece.Index = 0, Hash = replicate 20 97, Length = 32768\<rparr>,
            \<lparr>Piece.Index = 1, Hash = replicate 20 97, Length = 32768\<rparr>,
            \<lparr>Piece.Index = 2, Hash = replicate 20 97, Length = 32768\<rparr>,
            \<lparr>Piece.Index = 3, Hash = replicate 20 97, Length = 10000\<rparr>]"
  using CreatePieceList_pieces [of "\<lparr>Announce = ''u'',
       Info = \<lparr>PieceLength = 32768, Pieces = replicate 80 CHR ''a'', Name = ''f'',
               InfoDict.Length = 108304, Files = []\<rparr>\<rparr>"]
  by code_simp

subsection \<open>The request pipeline\<close>

lemma outstanding_append: "outstanding (xs @ ys) = outstanding xs + outstanding ys"
  by (induction xs rule: outstanding.induct) simp_all

lemma bounded_by_snoc:
  "bounded_by B (log @ [e]) \<longleftrightarrow> bounded_by B log \<and> outstanding (log @ [e]) \<le> B"
proof -
  have "(\<forall>n \<le> Suc (length log). outstanding (take n (log @ [e])) \<le> B)
        \<longleftrightarrow> (\<forall>n \<le> length log. outstanding (take n (log @ [e])) \<le> B)
            \<and> outstanding (take (Suc (length log)) (log @ [e])) \<le> B"
    using le_Suc_eq by auto
  then show ?thesis by (simp add: bounded_by_def)
qed

lemma bounded_by_whole: "bounded_by B log \<Longrightarrow> outstanding log \<le> B"
  unfolding bounded_by_def by (drule spec [of _ "length log"]) simp

lemma bounded_by_Nil: "bounded_by B [] \<longleftrightarrow> 0 \<le> B"
  by (simp add: bounded_by_def)

lemma refill_loose:
  "refill wr pw r d log = (ok, r', log') \<Longrightarrow> outstanding log = r - d \<Longrightarrow>
   bounded_by (maxBacklog * blockSize + blockSize - 1) log \<Longrightarrow>
   outstanding log' = r' - d \<and> bounded_by (maxBacklog * blockSize + blockSize - 1) log'"
proof (induction wr pw r d log rule: refill.induct)
  case (1 wr pw r d log)
  show ?case
  proof (cases "r < PieceWork.Length pw \<and> r - d < maxBacklog * blockSize")
    case False
    with "1.prems" show ?thesis by (simp add: refill.simps [of wr pw r d log])
  next
    case True
    define len where "len = (if PieceWork.Length pw - r < blockSize then PieceWork.Length pw - r else blockSize)"
    show ?thesis
    proof (cases "wr r")
      case False
      with True "1.prems" show ?thesis by (simp add: refill.simps [of wr pw r d log] Let_def)
    next
      case wr: True
      have len: "len \<le> blockSize" by (simp add: len_def)
      have step: "refill wr pw (r + len) d (log @ [Request (PieceWork.Index pw) r len]) = (ok, r', log')"
        using True wr "1.prems"(1) by (simp add: refill.simps [of wr pw r d log] Let_def len_def)
      have o: "outstanding (log @ [Request (PieceWork.Index pw) r len]) = r + len - d"
        using "1.prems"(2) by (simp add: outstanding_append)
      have b: "bounded_by (maxBacklog * blockSize + blockSize - 1) (log @ [Request (PieceWork.Index pw) r len])"
        using "1.prems"(3) o True len by (simp add: bounded_by_snoc)
      show ?thesis
        using "1.IH" [OF True len_def _ step o b] wr by simp
    qed
  qed
qed

lemma dvd_gap:
  assumes "blockSize dvd r" "blockSize dvd d" "r - d < maxBacklog * blockSize"
  shows "r - d \<le> maxBacklog * blockSize - blockSize"
proof -
  from assms(1,2) obtain a b where "r = blockSize * a" "d = blockSize * b"
    by (auto simp: dvd_def)
  with assms(3) have "blockSize * (a - b) < blockSize * maxBacklog"
    by (simp add: algebra_simps)
  then have "a - b < maxBacklog" by (simp add: blockSize_def)
  then have "a - b \<le> maxBacklog - 1" by simp
  then have "blockSize * (a - b) \<le> blockSize * (maxBacklog - 1)"
    by (intro mult_left_mono) (simp_all add: blockSize_def)
  then show ?thesis using \<open>r = _\<close> \<open>d = _\<close> by (simp add: algebra_simps)
qed

lemma refill_tight:
  "refill wr pw r d log = (ok, r', log') \<Longrightarrow> tight_inv (PieceWork.Length pw) r d log \<Longrightarrow>
   tight_inv (PieceWork.Length pw) r' d log'"
proof (induction wr pw r d log rule: refill.induct)
  case (1 wr pw r d log)
  let ?L = "PieceWork.Length pw"
  show ?case
  proof (cases "r < ?L \<and> r - d < maxBacklog * blockSize")
    case False
    with "1.prems" show ?thesis by (simp add: refill.simps [of wr pw r d log])
  next
    case True
    define len where "len = (if ?L - r < blockSize then ?L - r else blockSize)"
    show ?thesis
    proof (cases "wr r")
      case False
      with True "1.prems" show ?thesis by (simp add: refill.simps [of wr pw r d log] Let_def)
    next
      case wr: True
      let ?log = "log @ [Request (PieceWork.Index pw) r len]"
      have len: "len \<le> blockSize" by (simp add: len_def)
      have step: "refill wr pw (r + len) d ?log = (ok, r', log')"
        using True wr "1.prems"(1) by (simp add: refill.simps [of wr pw r d log] Let_def len_def)
      from "1.prems"(2) True have dv: "blockSize dvd r" "blockSize dvd d"
        and old: "\<forall>i b l. Request i b l \<in> set log \<longrightarrow> l = blockSize"
        and o: "outstanding log = r - d" and bd: "bounded_by (maxBacklog * blockSize) log"
        by (auto simp: tight_inv_def)
      from dvd_gap [OF dv] True have gap: "r - d \<le> maxBacklog * blockSize - blockSize" by simp
      have "tight_inv ?L (r + len) d ?log"
        unfolding tight_inv_def
      proof (intro conjI)
        show "outstanding ?log = r + len - d" using o by (simp add: outstanding_append)
        show "r + len - d \<le> maxBacklog * blockSize" using gap len by simp
        show "r + len = ?L \<or> blockSize dvd r + len \<and> blockSize dvd d"
          using dv by (auto simp: len_def)
        show "\<forall>i b l. Request i b l \<in> set ?log \<longrightarrow> l = blockSize \<or> r + len = ?L"
          using old by (auto simp: len_def)
        show "bounded_by (maxBacklog * blockSize) ?log"
          using bd o gap len by (simp add: bounded_by_snoc outstanding_append)
      qed
      from "1.IH" [OF True len_def _ step this] wr show ?thesis by simp
    qed
  qed
qed

lemma refill_extends:
  "refill wr pw r d log = (ok, r', log') \<Longrightarrow> \<exists>ext. log' = log @ ext"
proof (induction wr pw r d log rule: refill.induct)
  case (1 wr pw r d log)
  show ?case
  proof (cases "r < PieceWork.Length pw \<and> r - d < maxBacklog * blockSize")
    case False
    with "1.prems" show ?thesis by (simp add: refill.simps [of wr pw r d log])
  next
    case True
    define len where "len = (if PieceWork.Length pw - r < blockSize then PieceWork.Length pw - r else blockSize)"
    show ?thesis
    proof (cases "wr r")
      case False
      with True "1.prems" show ?thesis by (simp add: refill.simps [of wr pw r d log] Let_def)
    next
      case wr: True
      have step: "refill wr pw (r + len) d (log @ [Request (PieceWork.Index pw) r len]) = (ok, r', log')"
        using True wr "1.prems"(1) by (simp add: refill.simps [of wr pw r d log] Let_def len_def)
      from "1.IH" [OF True len_def _ step] wr show ?thesis by auto
    qed
  qed
qed

lemma download_loop_extends:
  "download_loop wr pw buf r d log reads = (out, log') \<Longrightarrow> \<exists>ext. log' = log @ ext"
proof (induction reads arbitrary: buf r d log)
  case Nil
  then show ?case
    by (subst (asm) download_loop.simps)
       (auto split: if_splits prod.splits bool.splits dest: refill_extends)
next
  case (Cons x reads)
  from Cons.prems show ?case
    apply (subst (asm) download_loop.simps)
    apply (auto split: if_splits prod.splits bool.splits read_result.splits simp: Let_def
                dest!: refill_extends Cons.IH)
    done
qed

lemma download_loop_loose:
  "download_loop wr pw buf r d log reads = (out, log') \<Longrightarrow> outstanding log = r - d \<Longrightarrow>
   bounded_by (maxBacklog * blockSize + blockSize - 1) log \<Longrightarrow>
   bounded_by (maxBacklog * blockSize + blockSize - 1) log'"
proof (induction reads arbitrary: buf r d log)
  case Nil
  then show ?case
    by (subst (asm) download_loop.simps)
       (auto split: if_splits prod.splits bool.splits dest: refill_loose)
next
  case (Cons x reads)
  show ?case
  proof (cases "d < PieceWork.Length pw")
    case False
    with Cons.prems show ?thesis by (subst (asm) download_loop.simps) simp
  next
    case True
    obtain ok r1 log1 where rf: "refill wr pw r d log = (ok, r1, log1)"
      by (cases "refill wr pw r d log") auto
    from refill_loose [OF rf Cons.prems(2,3)]
    have o1: "outstanding log1 = r1 - d"
      and b1: "bounded_by (maxBacklog * blockSize + blockSize - 1) log1" by simp_all
    show ?thesis
    proof (cases ok)
      case False
      with True rf Cons.prems(1) b1 show ?thesis
        by (subst (asm) download_loop.simps) simp
    next
      case ok: True
      show ?thesis
      proof (cases x)
        case ReadError
        with True rf ok Cons.prems(1) b1 show ?thesis
          by (subst (asm) download_loop.simps) simp
      next
        case KeepAlive
        with True rf ok Cons.prems(1) have "download_loop wr pw buf r1 d log1 reads = (out, log')"
          by (subst (asm) download_loop.simps) simp
        from Cons.IH [OF this o1 b1] show ?thesis .
      next
        case (Message ident payload)
        show ?thesis
        proof (cases "ident = MsgPiece \<and> \<not> length payload < 8
                      \<and> \<not> Uint32 (take 4 (drop 4 payload)) > length buf")
          case False
          with Message True rf ok Cons.prems(1) b1 Cons.IH [OF _ o1 b1] show ?thesis
            by (subst (asm) download_loop.simps) (auto simp: Let_def split: if_splits)
        next
          case piece: True
          let ?blk = "drop 8 payload"
          let ?log = "log1 @ [Block (length ?blk)]"
          from Message True rf ok piece Cons.prems(1)
          have step: "download_loop wr pw (fst (copy_at buf (Uint32 (take 4 (drop 4 payload))) ?blk))
                        r1 (d + int (length ?blk)) ?log reads = (out, log')"
            by (subst (asm) download_loop.simps) (simp add: Let_def)
          have o2: "outstanding ?log = r1 - (d + int (length ?blk))"
            using o1 by (simp add: outstanding_append)
          have b2: "bounded_by (maxBacklog * blockSize + blockSize - 1) ?log"
            using b1 bounded_by_whole [OF b1] by (simp add: bounded_by_snoc outstanding_append)
          from Cons.IH [OF step o2 b2] show ?thesis .
        qed
      qed
    qed
  qed
qed

lemma answers_requests_at:
  assumes "answers_requests (log1 @ Block k # ext)"
  shows "\<exists>i b. Request i b (int k) \<in> set log1"
proof -
  from assms have "\<exists>i b. Request i b (int k) \<in> set (take (length log1) (log1 @ Block k # ext))"
    unfolding answers_requests_def
    by (elim allE [of _ "length log1"] impE allE [of _ k]) simp_all
  then show ?thesis by simp
qed

lemma download_loop_tight:
  "download_loop wr pw buf r d log reads = (out, log') \<Longrightarrow>
   tight_inv (PieceWork.Length pw) r d log \<Longrightarrow> answers_requests log' \<Longrightarrow>
   bounded_by (maxBacklog * blockSize) log'"
proof (induction reads arbitrary: buf r d log)
  case Nil
  then show ?case
    by (subst (asm) download_loop.simps)
       (auto split: if_splits prod.splits bool.splits dest: refill_tight simp: tight_inv_def)
next
  case (Cons x reads)
  let ?L = "PieceWork.Length pw"
  show ?case
  proof (cases "d < ?L")
    case False
    with Cons.prems show ?thesis
      by (subst (asm) download_loop.simps) (simp add: tight_inv_def)
  next
    case True
    obtain ok r1 log1 where rf: "refill wr pw r d log = (ok, r1, log1)"
      by (cases "refill wr pw r d log") auto
    from refill_tight [OF rf Cons.prems(2)] have t1: "tight_inv ?L r1 d log1" .
    then have b1: "bounded_by (maxBacklog * blockSize) log1" by (simp add: tight_inv_def)
    show ?thesis
    proof (cases ok)
      case False
      with True rf Cons.prems(1) b1 show ?thesis
        by (subst (asm) download_loop.simps) simp
    next
      case ok: True
      show ?thesis
      proof (cases x)
        case ReadError
        with True rf ok Cons.prems(1) b1 show ?thesis
          by (subst (asm) download_loop.simps) simp
      next
        case KeepAlive
        with True rf ok Cons.prems(1) have "download_loop wr pw buf r1 d log1 reads = (out, log')"
          by (subst (asm) download_loop.simps) simp
        from Cons.IH [OF this t1 Cons.prems(3)] show ?thesis .
      next
        case (Message ident payload)
        show ?thesis
        proof (cases "ident = MsgPiece \<and> \<not> length payload < 8
                      \<and> \<not> Uint32 (take 4 (drop 4 payload)) > length buf")
          case False
          with Message True rf ok Cons.prems(1) b1 Cons.IH [OF _ t1 Cons.prems(3)] show ?thesis
            by (subst (asm) download_loop.simps) (auto simp: Let_def split: if_splits)
        next
          case piece: True
          let ?blk = "drop 8 payload"
          let ?k = "length ?blk"
          let ?log = "log1 @ [Block ?k]"
          from Message True rf ok piece Cons.prems(1)
          have step: "download_loop wr pw (fst (copy_at buf (Uint32 (take 4 (drop 4 payload))) ?blk))
                        r1 (d + int ?k) ?log reads = (out, log')"
            by (subst (asm) download_loop.simps) (simp add: Let_def)
          from download_loop_extends [OF step] obtain ext where "log' = log1 @ Block ?k # ext"
            by auto
          with Cons.prems(3) answers_requests_at obtain i b where rq: "Request i b (int ?k) \<in> set log1"
            by blast
          with t1 have k: "int ?k = blockSize \<or> r1 = ?L" by (auto simp: tight_inv_def)
          have t2: "tight_inv ?L r1 (d + int ?k) ?log"
            using t1 k bounded_by_whole [OF b1]
            by (auto simp: tight_inv_def outstanding_append bounded_by_snoc)
          from Cons.IH [OF step t2 Cons.prems(3)] show ?thesis .
        qed
      qed
    qed
  qed
qed

lemma tight_inv_init: "tight_inv L 0 0 []"
  by (simp add: tight_inv_def bounded_by_Nil maxBacklog_def blockSize_def)

text \<open>
  C4 (as amended).  At every point of the transcript of \<open>attemptDownloadPiece\<close>,
  whatever the peer delivers, bytes requested minus bytes received stay below
  \<open>(MAX_BACKLOG + 1) * BLOCK_SIZE\<close>; when every PIECE block delivered has the
  length of a REQUEST sent before it, they never exceed
  \<open>MAX_BACKLOG * BLOCK_SIZE\<close>.
\<close>

theorem attemptDownloadPiece_backlog:
  assumes "attemptDownloadPiece wr pw reads = (out, log)"
  shows "bounded_by (maxBacklog * blockSize + blockSize - 1) log
       \<and> (answers_requests log \<longrightarrow> bounded_by (maxBacklog * blockSize) log)"
proof (cases "PieceWork.Length pw < 0")
  case True
  with assms show ?thesis
    by (auto simp: attemptDownloadPiece_def bounded_by_Nil maxBacklog_def blockSize_def)
next
  case False
  with assms have dl: "download_loop wr pw (replicate (nat (PieceWork.Length pw)) 0) 0 0 [] reads = (out, log)"
    by (simp add: attemptDownloadPiece_def)
  have "bounded_by (maxBacklog * blockSize + blockSize - 1) log"
    using download_loop_loose [OF dl] by (simp add: bounded_by_Nil maxBacklog_def blockSize_def)
  moreover have "answers_requests log \<longrightarrow> bounded_by (maxBacklog * blockSize) log"
    using download_loop_tight [OF dl tight_inv_init] by simp
  ultimately show ?thesis by simp
qed

lemma backlog_witness_refill:
  "refill (\<lambda>_. True) \<lparr>PieceWork.Index = 3, Hash = replicate 20 0, Length = 5\<rparr> 0 0 []
   = (True, 5, [Request 3 0 5])"
  by (simp add: refill.simps maxBacklog_def blockSize_def)

lemma backlog_witness_run:
  "attemptDownloadPiece (\<lambda>_. True) \<lparr>PieceWork.Index = 3, Hash = replicate 20 0, Length = 5\<rparr>
     [KeepAlive, Message 7 [0, 0, 0, 3, 0, 0, 0, 0, 1, 2, 3, 4, 5]]
   = (Returned [1, 2, 3, 4, 5], [Request 3 0 5, Block 5])"
  unfolding attemptDownloadPiece_def
  apply (subst download_loop.simps)
  apply (simp add: backlog_witness_refill)
  apply (subst download_loop.simps)
  apply (simp add: refill.simps [of _ _ 5] MsgPiece_def Uint32_def)
  apply (subst download_loop.simps)
  apply (simp add: copy_at_def numeral_eq_Suc)
  done

lemma backlog_witness_answers: "answers_requests [Request 3 0 5, Block 5]"
  by (auto simp: answers_requests_def nth_Cons' less_Suc_eq numeral_2_eq_2)

lemma backlog_cex_refill1:
  "refill (\<lambda>_. True) \<lparr>PieceWork.Index = 0, Hash = replicate 20 0, Length = 200000\<rparr> 0 0 []
   = (True, 163840, [Request 0 0 16384, Request 0 16384 16384, Request 0 32768 16384,
   Request 0 49152 16384, Request 0 65536 16384, Request 0 81920 16384,
   Request 0 98304 16384, Request 0 114688 16384, Request 0 131072 16384,
   Request 0 147456 16384])"
  by (simp add: refill.simps maxBacklog_def blockSize_def)

lemma backlog_cex_refill2:
  "refill (\<lambda>_. True) \<lparr>PieceWork.Index = 0, Hash = replicate 20 0, Length = 200000\<rparr> 163840 2 log
   = (True, 180224, log @ [Request 0 163840 16384])"
  by (simp add: refill.simps maxBacklog_def blockSize_def)

lemma backlog_cex_run:
  "attemptDownloadPiece (\<lambda>_. True) \<lparr>PieceWork.Index = 0, Hash = replicate 20 0, Length = 200000\<rparr>
     [Message 7 [0, 0, 0, 0, 0, 0, 0, 0, 1, 1]]
   = (AwaitingPeer,
  [Request 0 0 16384, Request 0 16384 16384, Request 0 32768 16384,
   Request 0 49152 16384, Request 0 65536 16384, Request 0 81920 16384,
   Request 0 98304 16384, Request 0 114688 16384, Request 0 131072 16384,
   Request 0 147456 16384, Block 2, Request 0 163840 16384])"
  unfolding attemptDownloadPiece_def
  apply (subst download_loop.simps)
  apply (simp add: backlog_cex_refill1 MsgPiece_def Uint32_def)
  apply (subst download_loop.simps)
  apply (simp add: backlog_cex_refill2)
  done

text \<open>
  C4 (as stated) fails for blocks of arbitrary size.  For a piece of 200000 bytes
  the worker first sends ten requests (163840 bytes); a PIECE message carrying a
  two-byte block brings the difference to 163838, which is below the limit of the
  guard, so an eleventh request goes out and 180222 bytes are outstanding.
\<close>

theorem attemptDownloadPiece_backlog_counterexample:
  "attemptDownloadPiece (\<lambda>_. True)
     \<lparr>PieceWork.Index = 0, Hash = replicate 20 0, Length = 200000\<rparr>
     [Message 7 [0, 0, 0, 0, 0, 0, 0, 0, 1, 1]]
   = (AwaitingPeer,
      [Request 0 0 16384, Request 0 16384 16384, Request 0 32768 16384,
       Request 0 49152 16384, Request 0 65536 16384, Request 0 81920 16384,
       Request 0 98304 16384, Request 0 114688 16384, Request 0 131072 16384,
       Request 0 147456 16384, Block 2, Request 0 163840 16384])
   \<and> outstanding
      [Request 0 0 16384, Request 0 16384 16384, Request 0 32768 16384,
       Request 0 49152 16384, Request 0 65536 16384, Request 0 81920 16384,
       Request 0 98304 16384, Request 0 114688 16384, Request 0 131072 16384,
       Request 0 147456 16384, Block 2, Request 0 163840 16384] = 180222
   \<and> \<not> 180222 \<le> maxBacklog * blockSize"
  by (simp add: backlog_cex_run maxBacklog_def blockSize_def)

theorem attemptDownloadPiece_backlog_witness:
  "attemptDownloadPiece (\<lambda>_. True) \<lparr>PieceWork.Index = 3, Hash = replicate 20 0, Length = 5\<rparr>
     [KeepAlive, Message 7 [0, 0, 0, 3, 0, 0, 0, 0, 1, 2, 3, 4, 5]]
   = (Returned [1, 2, 3, 4, 5], [Request 3 0 5, Block 5])
   \<and> answers_requests [Request 3 0 5, Block 5]
   \<and> bounded_by (maxBacklog * blockSize) [Request 3 0 5, Block 5]"
  using attemptDownloadPiece_backlog [OF backlog_witness_run] backlog_witness_run backlog_witness_answers by simp

subsection \<open>The coordinator verifies before it writes\<close>

text \<open>
  One turn of the loop, for a result received while pieces are missing and whose
  index is in range: a buffer whose hash differs is answered by a fresh
  \<open>PieceWork\<close> on the work queue and nothing else; a buffer whose hash matches is
  written and counted, or ends the download when the write fails.
\<close>

lemma Download_loop_step:
  assumes "doneCount c < int (length pieces)" "in_range pieces res"
  shows "\<not> hash_matches sha1 pieces res \<Longrightarrow>
           Download_loop sha1 writeAt pieces PL c (res # rest) =
           Download_loop sha1 writeAt pieces PL
             (c\<lparr>workQueue := workQueue c @ [requeued pieces res]\<rparr>) rest"
    and "hash_matches sha1 pieces res \<Longrightarrow>
           writeAt (wrap64 (PieceResult.Index res * PL)) (PieceResult.Buf res) \<Longrightarrow>
           Download_loop sha1 writeAt pieces PL c (res # rest) =
           Download_loop sha1 writeAt pieces PL
             (c\<lparr>written := written c @ [(wrap64 (PieceResult.Index res * PL), PieceResult.Buf res)],
                doneCount := doneCount c + 1\<rparr>) rest"
    and "hash_matches sha1 pieces res \<Longrightarrow>
           \<not> writeAt (wrap64 (PieceResult.Index res * PL)) (PieceResult.Buf res) \<Longrightarrow>
           Download_loop sha1 writeAt pieces PL c (res # rest) = (DiskWriteFailed, c)"
  using assms by (subst Download_loop.simps; simp add: in_range_def Let_def)+





subsection \<open>The integer parser\<close>

lemma IndexByte_first:
  "c \<notin> set pre \<Longrightarrow> IndexByte (pre @ c # rest) c = Some (length pre)"
proof -
  assume "c \<notin> set pre"
  then have "takeWhile (\<lambda>x. x \<noteq> c) (pre @ c # rest) = pre"
    by (induction pre) auto
  then show ?thesis by (simp add: IndexByte_def)
qed

lemma IndexByte_i_body:
  assumes "CHR ''e'' \<notin> set body"
  shows "IndexByte (CHR ''i'' # body @ CHR ''e'' # rest) CHR ''e'' = Some (Suc (length body))"
  using IndexByte_first [of "CHR ''e''" "CHR ''i'' # body" rest] assms by simp

lemma ParseUint_loop_nonneg: "0 \<le> n \<Longrightarrow> ParseUint_loop n s = Inr m \<Longrightarrow> 0 \<le> m"
proof (induction s arbitrary: n)
  case Nil
  then show ?case by simp
next
  case (Cons c s)
  from Cons.prems(2) have dg: "is_digit c"
    and rec: "ParseUint_loop (n * 10 + (of_char c - 48)) s = Inr m"
    by (auto simp: Let_def split: if_splits)
  from dg have "(48::int) \<le> of_char c"
    unfolding is_digit_def by (metis of_nat_le_iff of_nat_numeral of_nat_of_char)
  with Cons.prems(1) have "0 \<le> n * 10 + (of_char c - 48)" by simp
  from Cons.IH [OF this rec] show ?case .
qed

lemma ParseInt_range: "ParseInt s = Inr n \<Longrightarrow> - (2 ^ 63) \<le> n \<and> n < 2 ^ 63"
  by (auto simp: ParseInt_def ParseUint_def Let_def split: if_splits sum.splits
           dest: ParseUint_loop_nonneg [rotated])

lemma parseInteger_range:
  "parseInteger bytes = Inr (n, used) \<Longrightarrow> - (2 ^ 63) \<le> n \<and> n < 2 ^ 63"
  by (auto simp: parseInteger_def Let_def split: if_splits option.splits sum.splits
           dest: ParseInt_range)

lemma parseInteger_body:
  assumes "CHR ''e'' \<notin> set body"
  shows "parseInteger (CHR ''i'' # body @ CHR ''e'' # rest) =
     (if length (CHR ''i'' # body @ CHR ''e'' # rest) < 3 then Inl ErrInvalidIntegerFormat
      else if length body = 0 then Inl ErrInvalidIntegerFormat
      else if body ! 0 = CHR ''0'' \<and> length body > 1 then Inl ErrLeadingZero
      else if body ! 0 = CHR ''-'' \<and> length body = 1 then Inl ErrInvalidIntegerFormat
      else if body ! 0 = CHR ''-'' \<and> body ! 1 = CHR ''0'' \<and> length body = 2
        then Inl ErrNegativeZero
      else if body ! 0 = CHR ''-'' \<and> body ! 1 = CHR ''0'' then Inl ErrLeadingZero
      else case ParseInt body of
             Inl e \<Rightarrow> Inl (ErrInvalidInteger e)
           | Inr num \<Rightarrow> Inr (num, Suc (length body) + 1))"
  unfolding parseInteger_def IndexByte_i_body [OF assms]
  by (simp add: Let_def)

text \<open>
  What the checks of \<open>parseInteger\<close> do catch: \<open>i0e\<close> is 0 and \<open>i-42e\<close> is -42;
  an error is returned for every integer \<open>i<body>e\<close> (followed by any bytes)
  whose body is empty, is \<open>-\<close>, is \<open>-0\<close>, starts with \<open>0\<close> and is longer than one
  byte, or starts with \<open>-0\<close>; so for \<open>i00e\<close>, \<open>i03e\<close> and \<open>i-0e\<close>.  Every accepted
  value lies in the range of a 64-bit signed integer.
\<close>

lemma parseInteger_checked_bodies:
  "parseInteger ''i0e'' = Inr (0, 3)
 \<and> parseInteger ''i-42e'' = Inr (- 42, 5)
 \<and> (\<forall>body rest. CHR ''e'' \<notin> set body \<and>
        (body = [] \<or> body = ''-'' \<or> body = ''-0''
         \<or> (\<exists>r. r \<noteq> [] \<and> body = CHR ''0'' # r)
         \<or> (\<exists>r. body = CHR ''-'' # CHR ''0'' # r))
      \<longrightarrow> (\<exists>err. parseInteger (CHR ''i'' # body @ CHR ''e'' # rest) = Inl err))
 \<and> parseInteger ''i00e'' = Inl ErrLeadingZero
 \<and> parseInteger ''i03e'' = Inl ErrLeadingZero
 \<and> parseInteger ''i-0e'' = Inl ErrNegativeZero
 \<and> (\<forall>bytes n used. parseInteger bytes = Inr (n, used) \<longrightarrow> - (2 ^ 63) \<le> n \<and> n < 2 ^ 63)"
proof (intro conjI allI impI)
  show "parseInteger ''i0e'' = Inr (0, 3)"
    using parseInteger_body [of "''0''" "[]"]
    by (simp add: ParseInt_def ParseUint_def is_digit_def)
  show "parseInteger ''i-42e'' = Inr (- 42, 5)"
    using parseInteger_body [of "''-42''" "[]"]
    by (simp add: ParseInt_def ParseUint_def is_digit_def)
  show "parseInteger ''i00e'' = Inl ErrLeadingZero"
    using parseInteger_body [of "''00''" "[]"] by simp
  show "parseInteger ''i03e'' = Inl ErrLeadingZero"
    using parseInteger_body [of "''03''" "[]"] by simp
  show "parseInteger ''i-0e'' = Inl ErrNegativeZero"
    using parseInteger_body [of "''-0''" "[]"] by simp
next
  fix body rest
  assume "CHR ''e'' \<notin> set body \<and>
        (body = [] \<or> body = ''-'' \<or> body = ''-0''
         \<or> (\<exists>r. r \<noteq> [] \<and> body = CHR ''0'' # r)
         \<or> (\<exists>r. body = CHR ''-'' # CHR ''0'' # r))"
  then show "\<exists>err. parseInteger (CHR ''i'' # body @ CHR ''e'' # rest) = Inl err"
    by (auto simp: parseInteger_body)
next
  fix bytes n used
  assume "parseInteger bytes = Inr (n, used)"
  from parseInteger_range [OF this]
  show "- (2 ^ 63) \<le> n" "n < 2 ^ 63" by simp_all
qed

text \<open>
  C5 fails on the code.  The claim has every integer with a superfluous leading
  zero rejected, and the comment above the checks of \<open>parseInteger\<close> says that
  they validate leading zeros and negative zero.  The checks look at the first
  byte of the body and at the byte after a \<^verbatim>\<open>-\<close> only, and
  \<^verbatim>\<open>strconv.ParseInt\<close> accepts a \<^verbatim>\<open>+\<close> sign: so \<open>i+03e\<close> is accepted as 3,
  \<open>i+007e\<close> as 7, \<open>i+00e\<close> and \<open>i+0e\<close> as 0, each consuming the whole integer,
  while \<open>i03e\<close> is rejected.
\<close>

theorem parseInteger_accepts_zeros_after_plus:
  "parseInteger ''i+03e'' = Inr (3, 5)
 \<and> parseInteger ''i+007e'' = Inr (7, 6)
 \<and> parseInteger ''i+00e'' = Inr (0, 5)
 \<and> parseInteger ''i+0e'' = Inr (0, 4)
 \<and> parseInteger ''i03e'' = Inl ErrLeadingZero"
proof (intro conjI)
  show "parseInteger ''i+03e'' = Inr (3, 5)"
    using parseInteger_body [of "''+03''" "[]"]
    by (simp add: ParseInt_def ParseUint_def is_digit_def)
  show "parseInteger ''i+007e'' = Inr (7, 6)"
    using parseInteger_body [of "''+007''" "[]"]
    by (simp add: ParseInt_def ParseUint_def is_digit_def)
  show "parseInteger ''i+00e'' = Inr (0, 5)"
    using parseInteger_body [of "''+00''" "[]"]
    by (simp add: ParseInt_def ParseUint_def is_digit_def)
  show "parseInteger ''i+0e'' = Inr (0, 4)"
    using parseInteger_body [of "''+0''" "[]"]
    by (simp add: ParseInt_def ParseUint_def is_digit_def)
  show "parseInteger ''i03e'' = Inl ErrLeadingZero"
    using parseInteger_body [of "''03''" "[]"] by simp
qed

subsection \<open>The path that main opens\<close>

text \<open>
  C9 fails on the code.  \<open>main\<close> never reads its arguments: started as
  \<^verbatim>\<open>bittorrent other.torrent\<close> in a directory that holds a well-formed
  \<open>other.torrent\<close> and nothing else, it ends with the error of reading
  \<open>debian-13.3.0-amd64-netinst.iso.torrent\<close>.
\<close>

theorem main_ignores_arguments:
  "main [''bittorrent'', ''other.torrent''] sha1
     [''other.torrent'' \<mapsto>
        ''d8:announce3:url4:infod6:lengthi1e4:name1:a12:piece lengthi1e6:pieces0:ee'']
   = Fatal ReadFileError"
  by (simp add: main_def Open_def)

lemma main_same_for_all_arguments: "main args sha1 fs = main args' sha1 fs"
  by (simp add: main_def)

subsection \<open>The decoder: every successful parse advances\<close>

lemma advancesD:
  "advances pv \<Longrightarrow> pv d s = Some (Inr (v, n), d') \<Longrightarrow> 0 < n \<and> n \<le> length s"
  unfolding advances_def by blast

lemma takeWhile_neq_props:
  "c \<in> set s \<Longrightarrow>
   length (takeWhile (\<lambda>x. x \<noteq> c) s) < length s
   \<and> s ! length (takeWhile (\<lambda>x. x \<noteq> c) s) = c
   \<and> c \<notin> set (take (length (takeWhile (\<lambda>x. x \<noteq> c) s)) s)"
  by (induction s) auto

lemma IndexByte_Some:
  "IndexByte s c = Some k \<Longrightarrow> k < length s \<and> s ! k = c \<and> c \<notin> set (take k s)"
  using takeWhile_neq_props [of c s] by (auto simp: IndexByte_def split: if_splits)

lemma parseInteger_advances:
  "parseInteger s = Inr (v, n) \<Longrightarrow> 3 \<le> n \<and> n \<le> length s"
  by (auto simp: parseInteger_def Let_def split: if_splits option.splits sum.splits
           dest!: IndexByte_Some)

lemma parseString_advances:
  "parseString s = Inr (v, n) \<Longrightarrow> 2 \<le> n \<and> n \<le> length s"
  by (auto simp: parseString_def Let_def split: if_splits option.splits sum.splits
           dest!: IndexByte_Some)

lemma parseList_loop_advances:
  "advances pv \<Longrightarrow> parseList_loop pv f d bytes res pos = Some (Inr (r, p), d') \<Longrightarrow>
   pos \<le> p \<and> (pos \<le> length bytes \<longrightarrow> p \<le> length bytes)"
proof (induction f arbitrary: d res pos)
  case 0
  then show ?case by simp
next
  case (Suc f)
  show ?case
  proof (cases "pos < length bytes \<and> bytes ! pos \<noteq> CHR ''e''")
    case False
    with Suc.prems(2) show ?thesis by auto
  next
    case True
    with Suc.prems(2) obtain v c d1 where
      pv: "pv d (drop pos bytes) = Some (Inr (v, c), d1)"
      and rec: "parseList_loop pv f d1 bytes (res @ [v]) (pos + c) = Some (Inr (r, p), d')"
      by (auto split: option.splits sum.splits prod.splits)
    from advancesD [OF Suc.prems(1) pv] have "0 < c" "c \<le> length bytes - pos" by simp_all
    with Suc.IH [OF Suc.prems(1) rec] True show ?thesis by auto
  qed
qed

lemma parseDict_loop_advances:
  "advances pv \<Longrightarrow> parseDict_loop pv f d bytes res pos = Some (Inr (r, p), d') \<Longrightarrow>
   pos \<le> p \<and> (pos \<le> length bytes \<longrightarrow> p \<le> length bytes)"
proof (induction f arbitrary: d res pos)
  case 0
  then show ?case by simp
next
  case (Suc f)
  show ?case
  proof (cases "pos < length bytes \<and> bytes ! pos \<noteq> CHR ''e''")
    case False
    with Suc.prems(2) show ?thesis by auto
  next
    case True
    with Suc.prems(2) obtain key ck v c d1 d2 where
      ps: "parseString (drop pos bytes) = Inr (key, ck)"
      and vp: "pos + ck < length bytes"
      and pv: "pv d (drop (pos + ck) bytes) = Some (Inr (v, c), d1)"
      and rec: "parseDict_loop pv f d2 bytes (AList.update key v res) (pos + ck + c) = Some (Inr (r, p), d')"
      by (auto simp: Let_def split: option.splits sum.splits prod.splits if_splits)
    from advancesD [OF Suc.prems(1) pv] have "0 < c" "c \<le> length bytes - (pos + ck)" by simp_all
    with Suc.IH [OF Suc.prems(1) rec] True vp show ?thesis by auto
  qed
qed

lemma leave_Some: "leave x = Some (r, d') \<longleftrightarrow> (\<exists>d2. x = Some (r, d2) \<and> d' = d2\<lparr>depth := depth d2 - 1\<rparr>)"
  by (auto simp: leave_def)

lemma parseList_advances:
  assumes "advances pv" "parseList pv f d bytes = Some (Inr (v, n), d')"
  shows "0 < n \<and> n \<le> length bytes"
proof -
  from assms(2) obtain r p d2 where
    "parseList_loop pv f (d\<lparr>depth := depth d + 1\<rparr>) bytes [] 1 = Some (Inr (r, p), d2)"
    and "p < length bytes" "n = p + 1" "2 \<le> length bytes"
    by (auto simp: parseList_def leave_Some Let_def
             split: if_splits option.splits sum.splits prod.splits)
  then show ?thesis by simp
qed

lemma parseDict_advances:
  assumes "advances pv" "parseDict pv f d bytes = Some (Inr (v, n), d')"
  shows "0 < n \<and> n \<le> length bytes"
proof -
  from assms(2) obtain r p d2 where
    "parseDict_loop pv f (d\<lparr>depth := depth d + 1\<rparr>) bytes [] 1 = Some (Inr (r, p), d2)"
    and "p < length bytes" "n = p + 1" "2 \<le> length bytes"
    by (auto simp: parseDict_def leave_Some Let_def
             split: if_splits option.splits sum.splits prod.splits)
  then show ?thesis by simp
qed

lemma parseValue_advances: "advances (parseValue f)"
proof (induction f)
  case 0
  then show ?case by (simp add: advances_def)
next
  case (Suc f)
  show ?case
    unfolding advances_def
  proof (intro allI impI)
    fix d s v n d'
    assume a: "parseValue (Suc f) d s = Some (Inr (v, n), d')"
    then consider
        (int) k where "parseInteger s = Inr (k, n)"
      | (str) x where "parseString s = Inr (x, n)"
      | (list) "parseList (parseValue f) f d s = Some (Inr (v, n), d')"
      | (dict) "parseDict (parseValue f) f d s = Some (Inr (v, n), d')"
      by (auto split: if_splits sum.splits prod.splits)
    then show "0 < n \<and> n \<le> length s"
    proof cases
      case int
      then show ?thesis using parseInteger_advances by fastforce
    next
      case str
      then show ?thesis using parseString_advances by fastforce
    next
      case list
      then show ?thesis using parseList_advances [OF Suc] by blast
    next
      case dict
      then show ?thesis using parseDict_advances [OF Suc] by blast
    qed
  qed
qed

subsection \<open>The decoder: what a parse leaves of the decoder state\<close>

lemma keepsD:
  "keeps pv \<Longrightarrow> pv d s = Some (r, d') \<Longrightarrow>
   depth d' = depth d \<and> data d' = data d \<and> (1 \<le> depth d \<longrightarrow> RawInfo d' = RawInfo d)"
  unfolding keeps_def by blast

lemma parseList_loop_keeps:
  "keeps pv \<Longrightarrow> parseList_loop pv f d bytes res pos = Some (r, d') \<Longrightarrow>
   depth d' = depth d \<and> data d' = data d \<and> (1 \<le> depth d \<longrightarrow> RawInfo d' = RawInfo d)"
proof (induction f arbitrary: d res pos)
  case 0
  then show ?case by simp
next
  case (Suc f)
  show ?case
  proof (cases "pos < length bytes \<and> bytes ! pos \<noteq> CHR ''e''")
    case False
    with Suc.prems(2) show ?thesis by auto
  next
    case True
    with Suc.prems(2) obtain x d1 where pv: "pv d (drop pos bytes) = Some (x, d1)"
      by (auto split: option.splits)
    note k = keepsD [OF Suc.prems(1) pv]
    show ?thesis
    proof (cases x)
      case (Inl e)
      with True pv Suc.prems(2) k show ?thesis by auto
    next
      case (Inr y)
      obtain v c where y: "y = (v, c)" by (cases y)
      with Inr True pv Suc.prems(2)
      have "parseList_loop pv f d1 bytes (res @ [v]) (pos + c) = Some (r, d')" by simp
      from Suc.IH [OF Suc.prems(1) this] k show ?thesis by simp
    qed
  qed
qed

lemma parseDict_loop_keeps:
  "keeps pv \<Longrightarrow> parseDict_loop pv f d bytes res pos = Some (r, d') \<Longrightarrow>
   depth d' = depth d \<and> data d' = data d \<and> (2 \<le> depth d \<longrightarrow> RawInfo d' = RawInfo d)"
proof (induction f arbitrary: d res pos)
  case 0
  then show ?case by simp
next
  case (Suc f)
  show ?case
  proof (cases "pos < length bytes \<and> bytes ! pos \<noteq> CHR ''e''")
    case False
    with Suc.prems(2) show ?thesis by auto
  next
    case True
    show ?thesis
    proof (cases "parseString (drop pos bytes)")
      case (Inl e)
      with True Suc.prems(2) show ?thesis by auto
    next
      case (Inr y)
      obtain key ck where y: "y = (key, ck)" by (cases y)
      show ?thesis
      proof (cases "pos + ck \<ge> length bytes")
        case True
        with \<open>pos < length bytes \<and> bytes ! pos \<noteq> CHR ''e''\<close> Inr y Suc.prems(2)
        show ?thesis by (auto simp: Let_def)
      next
        case False
        with True Inr y Suc.prems(2) obtain x d1
          where pv: "pv d (drop (pos + ck) bytes) = Some (x, d1)"
          by (auto simp: Let_def split: option.splits)
        note k = keepsD [OF Suc.prems(1) pv]
        show ?thesis
        proof (cases x)
          case (Inl e)
          with True False \<open>parseString (drop pos bytes) = Inr y\<close> y pv Suc.prems(2) k
          show ?thesis by (auto simp: Let_def)
        next
          case (Inr z)
          obtain v c where z: "z = (v, c)" by (cases z)
          let ?d2 = "if key = ''info'' \<and> depth d1 = 1
                     then d1\<lparr>RawInfo := take c (drop (pos + ck) bytes)\<rparr> else d1"
          from Inr z True False \<open>parseString (drop pos bytes) = Inr y\<close> y pv Suc.prems(2)
          have "parseDict_loop pv f ?d2 bytes (AList.update key v res) (pos + ck + c) = Some (r, d')"
            by (simp add: Let_def)
          from Suc.IH [OF Suc.prems(1) this] k show ?thesis by (auto split: if_splits)
        qed
      qed
    qed
  qed
qed

lemma parseList_keeps:
  assumes "keeps pv" "parseList pv f d bytes = Some (r, d')"
  shows "depth d' = depth d \<and> data d' = data d \<and> (1 \<le> depth d \<longrightarrow> RawInfo d' = RawInfo d)"
proof -
  let ?d1 = "d\<lparr>depth := depth d + 1\<rparr>"
  from assms(2)
  have "d' = d \<or> (\<exists>x d2. parseList_loop pv f ?d1 bytes [] 1 = Some (x, d2)
                        \<and> d' = d2\<lparr>depth := depth d2 - 1\<rparr>)"
    by (auto simp: parseList_def leave_Some Let_def
             split: if_splits option.splits sum.splits prod.splits)
  then show ?thesis
    using parseList_loop_keeps [OF assms(1), of f ?d1 bytes "[]" 1] by auto
qed

lemma parseDict_keeps:
  assumes "keeps pv" "parseDict pv f d bytes = Some (r, d')"
  shows "depth d' = depth d \<and> data d' = data d \<and> (1 \<le> depth d \<longrightarrow> RawInfo d' = RawInfo d)"
proof -
  let ?d1 = "d\<lparr>depth := depth d + 1\<rparr>"
  from assms(2)
  have "d' = d \<or> (\<exists>x d2. parseDict_loop pv f ?d1 bytes [] 1 = Some (x, d2)
                        \<and> d' = d2\<lparr>depth := depth d2 - 1\<rparr>)"
    by (auto simp: parseDict_def leave_Some Let_def
             split: if_splits option.splits sum.splits prod.splits)
  then show ?thesis
    using parseDict_loop_keeps [OF assms(1), of f ?d1 bytes "[]" 1] by auto
qed

lemma parseValue_keeps: "keeps (parseValue f)"
proof (induction f)
  case 0
  then show ?case by (simp add: keeps_def)
next
  case (Suc f)
  show ?case
    unfolding keeps_def
  proof (intro allI impI)
    fix d s r d'
    assume a: "parseValue (Suc f) d s = Some (r, d')"
    then consider
        (same) "d' = d"
      | (list) "parseList (parseValue f) f d s = Some (r, d')"
      | (dict) "parseDict (parseValue f) f d s = Some (r, d')"
      by (auto split: if_splits)
    then show "depth d' = depth d \<and> data d' = data d \<and> (1 \<le> depth d \<longrightarrow> RawInfo d' = RawInfo d)"
    proof cases
      case same
      then show ?thesis by simp
    next
      case list
      then show ?thesis using parseList_keeps [OF Suc] by blast
    next
      case dict
      then show ?thesis using parseDict_keeps [OF Suc] by blast
    qed
  qed
qed

lemma parseValue_nested_same:
  assumes "parseValue f d s = Some (r, d')" "1 \<le> depth d"
  shows "d' = d"
  using keepsD [OF parseValue_keeps assms(1)] assms(2) by simp

subsection \<open>The decoder: a parse depends on the bytes it consumes only\<close>

lemma prefix_determinedD:
  "prefix_determined pv \<Longrightarrow> pv d s = Some (Inr (v, n), d') \<Longrightarrow> take n s' = take n s \<Longrightarrow>
   pv d s' = Some (Inr (v, n), d')"
  unfolding prefix_determined_def by blast

lemma take_eq_shorter: "take n s' = take n s \<Longrightarrow> m \<le> n \<Longrightarrow> take m s' = take m s"
  by (metis min.absorb_iff1 take_take)

lemma take_eq_slice:
  assumes "take n s' = take n s" "a + b \<le> n"
  shows "take b (drop a s') = take b (drop a s)"
proof -
  have "take (b + a) s' = take (b + a) s"
    using take_eq_shorter [OF assms(1), of "b + a"] assms(2) by (simp add: add.commute)
  then show ?thesis by (simp add: take_drop)
qed

lemma take_eq_nth:
  assumes "take n s' = take n s" "k < n"
  shows "s' ! k = s ! k"
  by (metis assms nth_take)

lemma take_eq_length:
  assumes "take n s' = take n s" "n \<le> length s"
  shows "n \<le> length s'"
  by (metis assms length_take min.absorb_iff2 min.cobounded1)

lemma IndexByte_eqI:
  assumes "k < length s" "s ! k = c" "c \<notin> set (take k s)"
  shows "IndexByte s c = Some k"
proof -
  have "s = take k s @ c # drop (Suc k) s"
    using assms(1,2) by (metis id_take_nth_drop)
  then have "IndexByte s c = Some (length (take k s))"
    using IndexByte_first [OF assms(3), of "drop (Suc k) s"] by simp
  then show ?thesis using assms(1) by simp
qed

lemma IndexByte_prefix:
  assumes "IndexByte s c = Some k" "k < n" "take n s' = take n s"
  shows "IndexByte s' c = Some k"
proof -
  from IndexByte_Some [OF assms(1)]
  have k: "k < length s" "s ! k = c" "c \<notin> set (take k s)" by simp_all
  have 1: "k < length s'"
    using take_eq_length [OF take_eq_shorter [OF assms(3), of "Suc k"]] assms(2) k(1) by simp
  have 2: "s' ! k = c" using take_eq_nth [OF assms(3,2)] k(2) by simp
  have 3: "take k s' = take k s" using take_eq_shorter [OF assms(3)] assms(2) by simp
  show ?thesis by (rule IndexByte_eqI) (use 1 2 3 k(3) in simp_all)
qed

lemma parseInteger_prefix:
  assumes "parseInteger s = Inr (v, n)" "take n s' = take n s"
  shows "parseInteger s' = Inr (v, n)"
proof -
  from assms(1) obtain k where k: "IndexByte s CHR ''e'' = Some k" and n: "n = k + 1"
    by (auto simp: parseInteger_def Let_def split: if_splits option.splits sum.splits)
  from parseInteger_advances [OF assms(1)] have n3: "3 \<le> n" "n \<le> length s" by simp_all
  have k': "IndexByte s' CHR ''e'' = Some k"
    using IndexByte_prefix [OF k _ assms(2)] n by simp
  have len': "(length s' < 3) = False"
    using take_eq_length [OF assms(2) n3(2)] n3(1) by simp
  have len: "(length s < 3) = False" using n3 by simp
  have body: "take (k - 1) (drop 1 s') = take (k - 1) (drop 1 s)"
    using take_eq_slice [OF assms(2), of 1 "k - 1"] n by simp
  have "parseInteger s' = parseInteger s"
    by (simp only: parseInteger_def k k' option.case len len' body)
  with assms(1) show ?thesis by simp
qed

lemma parseString_prefix:
  assumes "parseString s = Inr (v, n)" "take n s' = take n s"
  shows "parseString s' = Inr (v, n)"
proof -
  from assms(1) obtain k len where k: "IndexByte s CHR '':'' = Some k"
    and len: "Atoi (take k s) = Inr len" and n: "n = k + 1 + nat len"
    by (auto simp: parseString_def Let_def split: if_splits option.splits sum.splits)
  from parseString_advances [OF assms(1)] have n2: "n \<le> length s" by simp
  have k': "IndexByte s' CHR '':'' = Some k"
    using IndexByte_prefix [OF k _ assms(2)] n by simp
  have short': "(length s' < k + 1 + nat len) = False"
    using take_eq_length [OF assms(2) n2] n by simp
  have short: "(length s < k + 1 + nat len) = False" using n2 n by simp
  have lb: "take k s' = take k s"
    using take_eq_shorter [OF assms(2), of k] n by simp
  have str: "take (nat len) (drop (k + 1) s') = take (nat len) (drop (k + 1) s)"
    using take_eq_slice [OF assms(2), of "k + 1" "nat len"] n by simp
  have "parseString s' = parseString s"
    by (simp only: parseString_def k k' option.case lb len sum.case Let_def short short' str)
  with assms(1) show ?thesis by simp
qed

lemma parseList_loop_prefix:
  assumes "advances pv" "prefix_determined pv"
  shows "parseList_loop pv f d bytes res pos = Some (Inr (r, p), d') \<Longrightarrow> p < length bytes \<Longrightarrow>
         take (p + 1) bytes' = take (p + 1) bytes \<Longrightarrow>
         parseList_loop pv f d bytes' res pos = Some (Inr (r, p), d')"
proof (induction f arbitrary: d res pos)
  case 0
  then show ?case by simp
next
  case (Suc f)
  note eq = Suc.prems(3)
  have len': "p < length bytes'"
    using take_eq_length [OF eq] Suc.prems(2) by simp
  show ?case
  proof (cases "pos < length bytes \<and> bytes ! pos \<noteq> CHR ''e''")
    case False
    with Suc.prems(1) have "r = res" "p = pos" "d' = d" by auto
    with False Suc.prems(2) have "bytes ! p = CHR ''e''" by simp
    then have "bytes' ! p = CHR ''e''" using take_eq_nth [OF eq, of p] by simp
    with \<open>r = res\<close> \<open>p = pos\<close> \<open>d' = d\<close> show ?thesis by simp
  next
    case True
    with Suc.prems(1) obtain v c d1 where
      pv: "pv d (drop pos bytes) = Some (Inr (v, c), d1)"
      and rec: "parseList_loop pv f d1 bytes (res @ [v]) (pos + c) = Some (Inr (r, p), d')"
      by (auto split: option.splits sum.splits prod.splits)
    from advancesD [OF assms(1) pv] have c: "0 < c" by simp
    from parseList_loop_advances [OF assms(1) rec] have pc: "pos + c \<le> p" by simp
    have cond': "pos < length bytes' \<and> bytes' ! pos \<noteq> CHR ''e''"
      using True len' pc c take_eq_nth [OF eq, of pos] by simp
    have "take c (drop pos bytes') = take c (drop pos bytes)"
      using take_eq_slice [OF eq, of pos c] pc by simp
    from prefix_determinedD [OF assms(2) pv this]
    have pv': "pv d (drop pos bytes') = Some (Inr (v, c), d1)" .
    from Suc.IH [OF rec Suc.prems(2) eq] cond' pv' show ?thesis by simp
  qed
qed

lemma parseDict_loop_prefix:
  assumes "advances pv" "prefix_determined pv"
  shows "parseDict_loop pv f d bytes res pos = Some (Inr (r, p), d') \<Longrightarrow> p < length bytes \<Longrightarrow>
         take (p + 1) bytes' = take (p + 1) bytes \<Longrightarrow>
         parseDict_loop pv f d bytes' res pos = Some (Inr (r, p), d')"
proof (induction f arbitrary: d res pos)
  case 0
  then show ?case by simp
next
  case (Suc f)
  note eq = Suc.prems(3)
  have len': "p < length bytes'"
    using take_eq_length [OF eq] Suc.prems(2) by simp
  show ?case
  proof (cases "pos < length bytes \<and> bytes ! pos \<noteq> CHR ''e''")
    case False
    with Suc.prems(1) have "r = res" "p = pos" "d' = d" by auto
    with False Suc.prems(2) have "bytes ! p = CHR ''e''" by simp
    then have "bytes' ! p = CHR ''e''" using take_eq_nth [OF eq, of p] by simp
    with \<open>r = res\<close> \<open>p = pos\<close> \<open>d' = d\<close> show ?thesis by simp
  next
    case True
    with Suc.prems(1) obtain key ck v c d1 where
      ps: "parseString (drop pos bytes) = Inr (key, ck)"
      and vp: "pos + ck < length bytes"
      and pv: "pv d (drop (pos + ck) bytes) = Some (Inr (v, c), d1)"
      and rec: "parseDict_loop pv f
                  (if key = ''info'' \<and> depth d1 = 1
                   then d1\<lparr>RawInfo := take c (drop (pos + ck) bytes)\<rparr> else d1)
                  bytes (AList.update key v res) (pos + ck + c) = Some (Inr (r, p), d')"
      by (auto simp: Let_def split: option.splits sum.splits prod.splits if_splits)
    from advancesD [OF assms(1) pv] have c: "0 < c" by simp
    from parseString_advances [OF ps] have ck: "2 \<le> ck" by simp
    from parseDict_loop_advances [OF assms(1) rec] have pc: "pos + ck + c \<le> p" by simp
    have cond': "pos < length bytes' \<and> bytes' ! pos \<noteq> CHR ''e''"
      using True len' pc c take_eq_nth [OF eq, of pos] by simp
    have "take ck (drop pos bytes') = take ck (drop pos bytes)"
      using take_eq_slice [OF eq, of pos ck] pc by simp
    from parseString_prefix [OF ps this]
    have ps': "parseString (drop pos bytes') = Inr (key, ck)" .
    have vp': "\<not> pos + ck \<ge> length bytes'" using len' pc c by simp
    have sl: "take c (drop (pos + ck) bytes') = take c (drop (pos + ck) bytes)"
      using take_eq_slice [OF eq, of "pos + ck" c] pc by simp
    from prefix_determinedD [OF assms(2) pv sl]
    have pv': "pv d (drop (pos + ck) bytes') = Some (Inr (v, c), d1)" .
    from Suc.IH [OF rec Suc.prems(2) eq] cond' ps' vp' pv' show ?thesis
      by (simp add: Let_def sl split del: if_split cong: if_cong)
  qed
qed

lemma parseList_prefix:
  assumes "advances pv" "prefix_determined pv"
    and "parseList pv f d bytes = Some (Inr (v, n), d')" "take n bytes' = take n bytes"
  shows "parseList pv f d bytes' = Some (Inr (v, n), d')"
proof -
  let ?d1 = "d\<lparr>depth := depth d + 1\<rparr>"
  from assms(3) obtain r p d2 where
    loop: "parseList_loop pv f ?d1 bytes [] 1 = Some (Inr (r, p), d2)"
    and dp: "\<not> depth ?d1 > MaxDepth"
    and p: "p < length bytes" "bytes ! p = CHR ''e''" and n: "n = p + 1"
    and hd: "2 \<le> length bytes" "bytes ! 0 = CHR ''l''"
    and v: "v = BList r" and d': "d' = d2\<lparr>depth := depth d2 - 1\<rparr>"
    by (auto simp: parseList_def leave_Some Let_def
             split: if_splits option.splits sum.splits prod.splits)
  from parseList_loop_advances [OF assms(1) loop] have p1: "1 \<le> p" by simp
  have eq: "take (p + 1) bytes' = take (p + 1) bytes" using assms(4) n by simp
  have len': "p < length bytes'" using take_eq_length [OF eq] p(1) by simp
  have e': "bytes' ! p = CHR ''e''" using take_eq_nth [OF eq, of p] p(2) by simp
  have l': "bytes' ! 0 = CHR ''l''" using take_eq_nth [OF eq, of 0] hd(2) by simp
  from parseList_loop_prefix [OF assms(1,2) loop p(1) eq]
  have loop': "parseList_loop pv f ?d1 bytes' [] 1 = Some (Inr (r, p), d2)" .
  show ?thesis
    using dp len' p1 e' l' loop' by (simp add: parseList_def leave_def Let_def v d' n)
qed

lemma parseDict_prefix:
  assumes "advances pv" "prefix_determined pv"
    and "parseDict pv f d bytes = Some (Inr (v, n), d')" "take n bytes' = take n bytes"
  shows "parseDict pv f d bytes' = Some (Inr (v, n), d')"
proof -
  let ?d1 = "d\<lparr>depth := depth d + 1\<rparr>"
  from assms(3) obtain r p d2 where
    loop: "parseDict_loop pv f ?d1 bytes [] 1 = Some (Inr (r, p), d2)"
    and dp: "\<not> depth ?d1 > MaxDepth"
    and p: "p < length bytes" "bytes ! p = CHR ''e''" and n: "n = p + 1"
    and hd: "2 \<le> length bytes" "bytes ! 0 = CHR ''d''"
    and v: "v = BDict r" and d': "d' = d2\<lparr>depth := depth d2 - 1\<rparr>"
    by (auto simp: parseDict_def leave_Some Let_def
             split: if_splits option.splits sum.splits prod.splits)
  from parseDict_loop_advances [OF assms(1) loop] have p1: "1 \<le> p" by simp
  have eq: "take (p + 1) bytes' = take (p + 1) bytes" using assms(4) n by simp
  have len': "p < length bytes'" using take_eq_length [OF eq] p(1) by simp
  have e': "bytes' ! p = CHR ''e''" using take_eq_nth [OF eq, of p] p(2) by simp
  have l': "bytes' ! 0 = CHR ''d''" using take_eq_nth [OF eq, of 0] hd(2) by simp
  from parseDict_loop_prefix [OF assms(1,2) loop p(1) eq]
  have loop': "parseDict_loop pv f ?d1 bytes' [] 1 = Some (Inr (r, p), d2)" .
  show ?thesis
    using dp len' p1 e' l' loop' by (simp add: parseDict_def leave_def Let_def v d' n)
qed

lemma parseValue_prefix_determined: "prefix_determined (parseValue f)"
proof (induction f)
  case 0
  then show ?case by (simp add: prefix_determined_def)
next
  case (Suc f)
  show ?case
    unfolding prefix_determined_def
  proof (intro allI impI)
    fix d s v n d' s'
    assume a: "parseValue (Suc f) d s = Some (Inr (v, n), d')" and eq: "take n s' = take n s"
    from advancesD [OF parseValue_advances a] have n: "0 < n" "n \<le> length s" by simp_all
    have ne: "length s \<noteq> 0" "length s' \<noteq> 0"
      using n take_eq_length [OF eq n(2)] by auto
    have hd: "s' ! 0 = s ! 0" using take_eq_nth [OF eq n(1)] .
    from a ne consider
        (int) k where "s ! 0 = CHR ''i''" "parseInteger s = Inr (k, n)" "v = BInt k" "d' = d"
      | (str) x where "s ! 0 \<noteq> CHR ''i''" "is_digit (s ! 0)" "parseString s = Inr (x, n)"
                      "v = BStr x" "d' = d"
      | (list) "s ! 0 \<noteq> CHR ''i''" "\<not> is_digit (s ! 0)" "s ! 0 = CHR ''l''"
               "parseList (parseValue f) f d s = Some (Inr (v, n), d')"
      | (dict) "s ! 0 \<noteq> CHR ''i''" "\<not> is_digit (s ! 0)" "s ! 0 \<noteq> CHR ''l''" "s ! 0 = CHR ''d''"
               "parseDict (parseValue f) f d s = Some (Inr (v, n), d')"
      by (auto split: if_splits sum.splits prod.splits)
    then show "parseValue (Suc f) d s' = Some (Inr (v, n), d')"
    proof cases
      case int
      with parseInteger_prefix [OF int(2) eq] ne hd show ?thesis by simp
    next
      case str
      with parseString_prefix [OF str(3) eq] ne hd show ?thesis by simp
    next
      case list
      with parseList_prefix [OF parseValue_advances Suc list(4) eq] ne hd show ?thesis by simp
    next
      case dict
      with parseDict_prefix [OF parseValue_advances Suc dict(5) eq] ne hd show ?thesis by simp
    qed
  qed
qed

subsection \<open>The decoder: more fuel does not change a result\<close>

lemma parseList_loop_fuel_mono:
  assumes "\<And>d s r. pv d s = Some r \<Longrightarrow> pv' d s = Some r"
  shows "parseList_loop pv f d bytes res pos = Some r \<Longrightarrow> f \<le> f' \<Longrightarrow>
         parseList_loop pv' f' d bytes res pos = Some r"
proof (induction f arbitrary: f' d res pos)
  case 0
  then show ?case by simp
next
  case (Suc f)
  from Suc.prems(2) obtain g where f': "f' = Suc g" and g: "f \<le> g"
    by (cases f') auto
  show ?case
  proof (cases "pos < length bytes \<and> bytes ! pos \<noteq> CHR ''e''")
    case False
    with Suc.prems(1) f' show ?thesis by auto
  next
    case True
    with Suc.prems(1) obtain x d1 where pv: "pv d (drop pos bytes) = Some (x, d1)"
      by (auto split: option.splits)
    note pv' = assms [OF pv]
    show ?thesis
    proof (cases x)
      case (Inl e)
      with True pv pv' Suc.prems(1) f' show ?thesis by auto
    next
      case (Inr y)
      obtain v c where y: "y = (v, c)" by (cases y)
      with Inr True pv Suc.prems(1)
      have "parseList_loop pv f d1 bytes (res @ [v]) (pos + c) = Some r" by simp
      from Suc.IH [OF this g] Inr y True pv' f' show ?thesis by simp
    qed
  qed
qed

lemma parseDict_loop_fuel_mono:
  assumes "\<And>d s r. pv d s = Some r \<Longrightarrow> pv' d s = Some r"
  shows "parseDict_loop pv f d bytes res pos = Some r \<Longrightarrow> f \<le> f' \<Longrightarrow>
         parseDict_loop pv' f' d bytes res pos = Some r"
proof (induction f arbitrary: f' d res pos)
  case 0
  then show ?case by simp
next
  case (Suc f)
  from Suc.prems(2) obtain g where f': "f' = Suc g" and g: "f \<le> g"
    by (cases f') auto
  show ?case
  proof (cases "pos < length bytes \<and> bytes ! pos \<noteq> CHR ''e''")
    case False
    with Suc.prems(1) f' show ?thesis by auto
  next
    case True
    show ?thesis
    proof (cases "parseString (drop pos bytes)")
      case (Inl e)
      with True Suc.prems(1) f' show ?thesis by auto
    next
      case (Inr y)
      obtain key ck where y: "y = (key, ck)" by (cases y)
      show ?thesis
      proof (cases "pos + ck \<ge> length bytes")
        case True
        with \<open>pos < length bytes \<and> bytes ! pos \<noteq> CHR ''e''\<close> Inr y Suc.prems(1) f'
        show ?thesis by (auto simp: Let_def)
      next
        case False
        with True Inr y Suc.prems(1) obtain x d1
          where pv: "pv d (drop (pos + ck) bytes) = Some (x, d1)"
          by (auto simp: Let_def split: option.splits)
        note pv' = assms [OF pv]
        show ?thesis
        proof (cases x)
          case (Inl e)
          with True False \<open>parseString (drop pos bytes) = Inr y\<close> y pv pv' Suc.prems(1) f'
          show ?thesis by (auto simp: Let_def)
        next
          case (Inr z)
          obtain v c where z: "z = (v, c)" by (cases z)
          let ?d2 = "if key = ''info'' \<and> depth d1 = 1
                     then d1\<lparr>RawInfo := take c (drop (pos + ck) bytes)\<rparr> else d1"
          from Inr z True False \<open>parseString (drop pos bytes) = Inr y\<close> y pv Suc.prems(1)
          have "parseDict_loop pv f ?d2 bytes (AList.update key v res) (pos + ck + c) = Some r"
            by (simp add: Let_def)
          from Suc.IH [OF this g] Inr z True False \<open>parseString (drop pos bytes) = Inr y\<close> y pv' f'
          show ?thesis by (simp add: Let_def split del: if_split)
        qed
      qed
    qed
  qed
qed

lemma leave_eq_Some_cases:
  "leave x = Some r \<Longrightarrow> \<exists>y. x = Some y"
  by (cases x) (auto simp: leave_def)

lemma parseList_fuel_mono:
  assumes "\<And>d s r. pv d s = Some r \<Longrightarrow> pv' d s = Some r"
    and "parseList pv f d bytes = Some r" "f \<le> f'"
  shows "parseList pv' f' d bytes = Some r"
proof (cases "depth d + 1 > MaxDepth \<or> length bytes < 2 \<or> bytes ! 0 \<noteq> CHR ''l''")
  case True
  with assms(2) show ?thesis by (auto simp: parseList_def Let_def)
next
  case False
  let ?d1 = "d\<lparr>depth := depth d + 1\<rparr>"
  from False assms(2) obtain y where "parseList_loop pv f ?d1 bytes [] 1 = Some y"
    by (cases "parseList_loop pv f ?d1 bytes [] 1") (auto simp: parseList_def Let_def leave_def)
  from this parseList_loop_fuel_mono [OF assms(1) this assms(3)]
  have "parseList_loop pv' f' ?d1 bytes [] 1 = parseList_loop pv f ?d1 bytes [] 1" by simp
  then have "parseList pv' f' d bytes = parseList pv f d bytes"
    by (simp only: parseList_def Let_def)
  with assms(2) show ?thesis by simp
qed

lemma parseDict_fuel_mono:
  assumes "\<And>d s r. pv d s = Some r \<Longrightarrow> pv' d s = Some r"
    and "parseDict pv f d bytes = Some r" "f \<le> f'"
  shows "parseDict pv' f' d bytes = Some r"
proof (cases "depth d + 1 > MaxDepth \<or> length bytes < 2 \<or> bytes ! 0 \<noteq> CHR ''d''")
  case True
  with assms(2) show ?thesis by (auto simp: parseDict_def Let_def)
next
  case False
  let ?d1 = "d\<lparr>depth := depth d + 1\<rparr>"
  from False assms(2) obtain y where "parseDict_loop pv f ?d1 bytes [] 1 = Some y"
    by (cases "parseDict_loop pv f ?d1 bytes [] 1") (auto simp: parseDict_def Let_def leave_def)
  from this parseDict_loop_fuel_mono [OF assms(1) this assms(3)]
  have "parseDict_loop pv' f' ?d1 bytes [] 1 = parseDict_loop pv f ?d1 bytes [] 1" by simp
  then have "parseDict pv' f' d bytes = parseDict pv f d bytes"
    by (simp only: parseDict_def Let_def)
  with assms(2) show ?thesis by simp
qed

lemma parseValue_fuel_mono:
  "parseValue f d s = Some r \<Longrightarrow> f \<le> f' \<Longrightarrow> parseValue f' d s = Some r"
proof (induction f arbitrary: f' d s r)
  case 0
  then show ?case by simp
next
  case (Suc f)
  from Suc.prems(2) obtain g where f': "f' = Suc g" and g: "f \<le> g"
    by (cases f') auto
  have step: "\<And>d s r. parseValue f d s = Some r \<Longrightarrow> parseValue g d s = Some r"
    using Suc.IH g by blast
  from Suc.prems(1) consider
      (list) "length s \<noteq> 0" "s ! 0 \<noteq> CHR ''i''" "\<not> is_digit (s ! 0)" "s ! 0 = CHR ''l''"
             "parseList (parseValue f) f d s = Some r"
    | (dict) "length s \<noteq> 0" "s ! 0 \<noteq> CHR ''i''" "\<not> is_digit (s ! 0)" "s ! 0 \<noteq> CHR ''l''"
             "s ! 0 = CHR ''d''" "parseDict (parseValue f) f d s = Some r"
    | (other) "parseValue (Suc g) d s = parseValue (Suc f) d s"
    by (auto split: if_splits)
  then show ?case
  proof cases
    case list
    with parseList_fuel_mono [OF step list(5) g] f' show ?thesis by simp
  next
    case dict
    with parseDict_fuel_mono [OF step dict(6) g] f' show ?thesis by simp
  next
    case other
    with Suc.prems(1) f' show ?thesis by simp
  qed
qed

subsection \<open>The decoder: enough fuel is supplied\<close>

lemma parseList_loop_total:
  assumes "advances pv" and "\<And>d s. length s < m \<Longrightarrow> pv d s \<noteq> None"
  shows "length bytes - pos < f \<Longrightarrow> length bytes - pos < m \<Longrightarrow>
         parseList_loop pv f d bytes res pos \<noteq> None"
proof (induction f arbitrary: d res pos)
  case 0
  then show ?case by simp
next
  case (Suc f)
  show ?case
  proof (cases "pos < length bytes \<and> bytes ! pos \<noteq> CHR ''e''")
    case False
    then show ?thesis by auto
  next
    case True
    from assms(2) [of "drop pos bytes" d] Suc.prems(2)
    obtain x d1 where pv: "pv d (drop pos bytes) = Some (x, d1)" by auto
    show ?thesis
    proof (cases x)
      case (Inl e)
      with True pv show ?thesis by simp
    next
      case (Inr y)
      obtain v c where y: "y = (v, c)" by (cases y)
      from advancesD [OF assms(1) pv [unfolded Inr y]] have c: "0 < c" by simp
      have "parseList_loop pv f d1 bytes (res @ [v]) (pos + c) \<noteq> None"
        by (rule Suc.IH) (use Suc.prems True c in auto)
      with Inr y True pv show ?thesis by simp
    qed
  qed
qed

lemma parseDict_loop_total:
  assumes "advances pv" and "\<And>d s. length s < m \<Longrightarrow> pv d s \<noteq> None"
  shows "length bytes - pos < f \<Longrightarrow> length bytes - pos < m \<Longrightarrow>
         parseDict_loop pv f d bytes res pos \<noteq> None"
proof (induction f arbitrary: d res pos)
  case 0
  then show ?case by simp
next
  case (Suc f)
  show ?case
  proof (cases "pos < length bytes \<and> bytes ! pos \<noteq> CHR ''e''")
    case False
    then show ?thesis by auto
  next
    case True
    show ?thesis
    proof (cases "parseString (drop pos bytes)")
      case (Inl e)
      with True show ?thesis by auto
    next
      case (Inr y)
      obtain key ck where y: "y = (key, ck)" by (cases y)
      show ?thesis
      proof (cases "pos + ck \<ge> length bytes")
        case True
        with \<open>pos < length bytes \<and> bytes ! pos \<noteq> CHR ''e''\<close> Inr y
        show ?thesis by (auto simp: Let_def)
      next
        case False
        have "length (drop (pos + ck) bytes) < m" using Suc.prems(2) by simp
        from assms(2) [OF this, of d]
        obtain x d1 where pv: "pv d (drop (pos + ck) bytes) = Some (x, d1)" by auto
        show ?thesis
        proof (cases x)
          case (Inl e)
          with True False \<open>parseString (drop pos bytes) = Inr y\<close> y pv
          show ?thesis by (auto simp: Let_def)
        next
          case (Inr z)
          obtain v c where z: "z = (v, c)" by (cases z)
          from advancesD [OF assms(1) pv [unfolded Inr z]] have c: "0 < c" by simp
          let ?d2 = "if key = ''info'' \<and> depth d1 = 1
                     then d1\<lparr>RawInfo := take c (drop (pos + ck) bytes)\<rparr> else d1"
          have "parseDict_loop pv f ?d2 bytes (AList.update key v res) (pos + ck + c) \<noteq> None"
            by (rule Suc.IH) (use Suc.prems True c in auto)
          with Inr z True False \<open>parseString (drop pos bytes) = Inr y\<close> y pv
          show ?thesis by (simp add: Let_def split del: if_split)
        qed
      qed
    qed
  qed
qed

lemma leave_None: "leave x = None \<longleftrightarrow> x = None"
  by (simp add: leave_def)

lemma parseList_total:
  assumes "advances pv" and "\<And>d s. length s < m \<Longrightarrow> pv d s \<noteq> None"
    and "length bytes \<le> f" "length bytes \<le> m"
  shows "parseList pv f d bytes \<noteq> None"
proof (cases "depth d + 1 > MaxDepth \<or> length bytes < 2 \<or> bytes ! 0 \<noteq> CHR ''l''")
  case True
  then show ?thesis by (auto simp: parseList_def Let_def leave_def)
next
  case False
  let ?d1 = "d\<lparr>depth := depth d + 1\<rparr>"
  have "parseList_loop pv f ?d1 bytes [] 1 \<noteq> None"
    by (rule parseList_loop_total [OF assms(1,2)]) (use False assms(3,4) in auto)
  then obtain x d2 where "parseList_loop pv f ?d1 bytes [] 1 = Some (x, d2)" by auto
  then show ?thesis
    using False by (cases x) (auto simp: parseList_def Let_def leave_def)
qed

lemma parseDict_total:
  assumes "advances pv" and "\<And>d s. length s < m \<Longrightarrow> pv d s \<noteq> None"
    and "length bytes \<le> f" "length bytes \<le> m"
  shows "parseDict pv f d bytes \<noteq> None"
proof (cases "depth d + 1 > MaxDepth \<or> length bytes < 2 \<or> bytes ! 0 \<noteq> CHR ''d''")
  case True
  then show ?thesis by (auto simp: parseDict_def Let_def leave_def)
next
  case False
  let ?d1 = "d\<lparr>depth := depth d + 1\<rparr>"
  have "parseDict_loop pv f ?d1 bytes [] 1 \<noteq> None"
    by (rule parseDict_loop_total [OF assms(1,2)]) (use False assms(3,4) in auto)
  then obtain x d2 where "parseDict_loop pv f ?d1 bytes [] 1 = Some (x, d2)" by auto
  then show ?thesis
    using False by (cases x) (auto simp: parseDict_def Let_def leave_def)
qed

lemma parseValue_total: "length s < f \<Longrightarrow> parseValue f d s \<noteq> None"
proof (induction f arbitrary: d s)
  case 0
  then show ?case by simp
next
  case (Suc f)
  have tot: "\<And>d s. length s < f \<Longrightarrow> parseValue f d s \<noteq> None" using Suc.IH by blast
  from Suc.prems have len: "length s \<le> f" by simp
  show ?case
    using parseList_total [OF parseValue_advances tot len len, of d]
          parseDict_total [OF parseValue_advances tot len len, of d]
    by simp
qed

lemma Decode_returns: "\<exists>r d'. Decode d = Some (r, d')"
proof -
  have "parseValue (length (data d) + 1) d (data d) \<noteq> None"
    by (rule parseValue_total) simp
  then obtain x d' where "parseValue (length (data d) + 1) d (data d) = Some (x, d')" by auto
  then show ?thesis
    by (cases x) (auto simp: Decode_def Decode_fuel_def)
qed


subsection \<open>The decoder: the parse functions do not read the input field\<close>

lemma with_data_simps [simp]:
  "with_data x None = None"
  "with_data x (Some (y, d')) = Some (y, d'\<lparr>data := x\<rparr>)"
  by (simp_all add: with_data_def)








subsection \<open>The decoder: trailing bytes\<close>




subsection \<open>The decoder: below the top level the result depends on the depth only\<close>

lemma depth_onlyD:
  "depth_only pv \<Longrightarrow> depth d = depth e \<Longrightarrow> 1 \<le> depth d \<Longrightarrow>
   map_option fst (pv d s) = map_option fst (pv e s)"
  unfolding depth_only_def by blast

lemma same_fst_cases:
  assumes "map_option fst x = map_option fst y"
  obtains "x = None" "y = None" | r d e where "x = Some (r, d)" "y = Some (r, e)"
  using assms by (cases x; cases y) auto

lemma parseList_loop_depth_only:
  assumes "depth_only pv" "keeps pv"
  shows "depth d = depth e \<Longrightarrow> 1 \<le> depth d \<Longrightarrow>
         map_option fst (parseList_loop pv f d bytes res pos)
           = map_option fst (parseList_loop pv f e bytes res pos)"
proof (induction f arbitrary: d e res pos)
  case 0
  then show ?case by simp
next
  case (Suc f)
  show ?case
  proof (cases "pos < length bytes \<and> bytes ! pos \<noteq> CHR ''e''")
    case False
    then show ?thesis by auto
  next
    case True
    from depth_onlyD [OF assms(1) Suc.prems, of "drop pos bytes"]
    show ?thesis
    proof (cases rule: same_fst_cases)
      case 1
      with True show ?thesis by simp
    next
      case (2 r d1 e1)
      from keepsD [OF assms(2) 2(1)] keepsD [OF assms(2) 2(2)] Suc.prems
      have dep: "depth d1 = depth e1" "1 \<le> depth d1" by simp_all
      show ?thesis
      proof (cases r)
        case (Inl err)
        with 2 True show ?thesis by simp
      next
        case (Inr b)
        obtain val consumed where b: "b = (val, consumed)" by (cases b)
        from Suc.IH [OF dep] 2 True Inr b show ?thesis by simp
      qed
    qed
  qed
qed

lemma parseDict_loop_depth_only:
  assumes "depth_only pv" "keeps pv"
  shows "depth d = depth e \<Longrightarrow> 2 \<le> depth d \<Longrightarrow>
         map_option fst (parseDict_loop pv f d bytes res pos)
           = map_option fst (parseDict_loop pv f e bytes res pos)"
proof (induction f arbitrary: d e res pos)
  case 0
  then show ?case by simp
next
  case (Suc f)
  show ?case
  proof (cases "pos < length bytes \<and> bytes ! pos \<noteq> CHR ''e''")
    case False
    then show ?thesis by auto
  next
    case True
    show ?thesis
    proof (cases "parseString (drop pos bytes)")
      case (Inl err)
      with True show ?thesis by simp
    next
      case (Inr b)
      obtain key ck where b: "b = (key, ck)" by (cases b)
      show ?thesis
      proof (cases "pos + ck \<ge> length bytes")
        case True
        with \<open>pos < length bytes \<and> bytes ! pos \<noteq> CHR ''e''\<close> Inr b show ?thesis
          by (simp add: Let_def)
      next
        case False
        from Suc.prems have one: "1 \<le> depth d" by simp
        from depth_onlyD [OF assms(1) Suc.prems(1) one, of "drop (pos + ck) bytes"]
        show ?thesis
        proof (cases rule: same_fst_cases)
          case 1
          with True False Inr b show ?thesis by (simp add: Let_def)
        next
          case (2 r d1 e1)
          from keepsD [OF assms(2) 2(1)] keepsD [OF assms(2) 2(2)] Suc.prems
          have dep: "depth d1 = depth e1" "2 \<le> depth d1" by simp_all
          then have ne: "depth d1 \<noteq> 1" "depth e1 \<noteq> 1" by simp_all
          show ?thesis
          proof (cases r)
            case (Inl err)
            with 2 True False \<open>parseString (drop pos bytes) = Inr b\<close> b show ?thesis
              by (simp add: Let_def)
          next
            case (Inr b2)
            obtain val consumed where b2: "b2 = (val, consumed)" by (cases b2)
            from Suc.IH [OF dep] 2 True False \<open>parseString (drop pos bytes) = Inr b\<close> b Inr b2 ne
            show ?thesis by (simp add: Let_def)
          qed
        qed
      qed
    qed
  qed
qed

lemma map_option_fst_leave: "map_option fst (leave r) = map_option fst r"
  by (cases r) (auto simp: leave_def)

lemma parseList_depth_only:
  assumes "depth_only pv" "keeps pv"
  shows "depth_only (parseList pv f)"
  unfolding depth_only_def
proof (intro allI impI)
  fix d e :: Decoder and s
  assume dep: "depth d = depth e" "1 \<le> depth d"
  let ?d1 = "d\<lparr>depth := depth d + 1\<rparr>" and ?e1 = "e\<lparr>depth := depth e + 1\<rparr>"
  have dep1: "depth ?d1 = depth ?e1" "1 \<le> depth ?d1" using dep by simp_all
  from parseList_loop_depth_only [OF assms dep1, of f s "[]" 1]
  show "map_option fst (parseList pv f d s) = map_option fst (parseList pv f e s)"
  proof (cases rule: same_fst_cases)
    case 1
    with dep show ?thesis by (simp add: parseList_def map_option_fst_leave Let_def)
  next
    case (2 r d2 e2)
    with dep show ?thesis
      by (simp add: parseList_def map_option_fst_leave Let_def split: sum.splits prod.splits)
  qed
qed

lemma parseDict_depth_only:
  assumes "depth_only pv" "keeps pv"
  shows "depth_only (parseDict pv f)"
  unfolding depth_only_def
proof (intro allI impI)
  fix d e :: Decoder and s
  assume dep: "depth d = depth e" "1 \<le> depth d"
  let ?d1 = "d\<lparr>depth := depth d + 1\<rparr>" and ?e1 = "e\<lparr>depth := depth e + 1\<rparr>"
  have dep1: "depth ?d1 = depth ?e1" "2 \<le> depth ?d1" using dep by simp_all
  from parseDict_loop_depth_only [OF assms dep1, of f s "[]" 1]
  show "map_option fst (parseDict pv f d s) = map_option fst (parseDict pv f e s)"
  proof (cases rule: same_fst_cases)
    case 1
    with dep show ?thesis by (simp add: parseDict_def map_option_fst_leave Let_def)
  next
    case (2 r d2 e2)
    with dep show ?thesis
      by (simp add: parseDict_def map_option_fst_leave Let_def split: sum.splits prod.splits)
  qed
qed

lemma parseValue_depth_only: "depth_only (parseValue f)"
proof (induction f)
  case 0
  show ?case by (simp add: depth_only_def)
next
  case (Suc f)
  note L = depth_onlyD [OF parseList_depth_only [OF Suc parseValue_keeps]]
  note D = depth_onlyD [OF parseDict_depth_only [OF Suc parseValue_keeps]]
  show ?case
    unfolding depth_only_def
  proof (intro allI impI)
    fix d e :: Decoder and s
    assume dep: "depth d = depth e" "1 \<le> depth d"
    from L [OF dep, of f s] D [OF dep, of f s]
    show "map_option fst (parseValue (Suc f) d s) = map_option fst (parseValue (Suc f) e s)"
      by simp
  qed
qed

lemma parseValue_value_at:
  assumes "parseValue g d (drop start bytes) = Some (Inr (v, n), d1)" "depth d = 1"
  shows "value_at bytes start v n"
proof -
  let ?s = "drop start bytes" and ?F = "length bytes + 1"
  have "depth d = depth nested" "1 \<le> depth d" using assms(2) by (simp_all add: nested_def)
  from depth_onlyD [OF parseValue_depth_only this, of g ?s] assms(1)
  obtain e where e: "parseValue g nested ?s = Some (Inr (v, n), e)"
    by (cases rule: same_fst_cases) auto
  have "1 \<le> depth nested" by (simp add: nested_def)
  from parseValue_nested_same [OF e this] e
  have n: "parseValue g nested ?s = Some (Inr (v, n), nested)" by simp
  have "parseValue ?F nested ?s \<noteq> None" by (rule parseValue_total) simp
  then obtain y where y: "parseValue ?F nested ?s = Some y" by auto
  from parseValue_fuel_mono [OF y, of "max g ?F"] parseValue_fuel_mono [OF n, of "max g ?F"]
  have "y = (Inr (v, n), nested)" by simp
  with y show ?thesis by (simp add: value_at_def)
qed

subsection \<open>The decoder: the captured bytes of the info dictionary\<close>

lemma parseList_not_dict:
  "parseList pv f d bytes = Some (Inr (v, n), d') \<Longrightarrow> \<exists>r. v = BList r"
  by (auto simp: parseList_def leave_Some Let_def
           split: if_splits option.splits sum.splits prod.splits)

text \<open>
  The loop of \<open>parseDict\<close> at depth 1 reads the entries of the dictionary one after
  the other; what it returns is the dictionary they build, and what it leaves in
  \<open>RawInfo\<close> is the byte range of the value of the last entry with key \<open>info\<close>.
\<close>

lemma parseDict_loop_entries:
  assumes va: "\<And>d start v n d1. depth d = 1 \<Longrightarrow>
                 pv d (drop start bytes) = Some (Inr (v, n), d1) \<Longrightarrow> value_at bytes start v n"
    and kp: "keeps pv"
  shows "parseDict_loop pv f d bytes res pos = Some (Inr (r, p), d') \<Longrightarrow> depth d = 1 \<Longrightarrow>
         \<exists>es. entries_between bytes pos es p \<and> r = entries_dict es res
             \<and> RawInfo d' = entries_info bytes es (RawInfo d)
             \<and> \<not> (p < length bytes \<and> bytes ! p \<noteq> CHR ''e'')"
proof (induction f arbitrary: d res pos)
  case 0
  then show ?case by simp
next
  case (Suc f)
  show ?case
  proof (cases "pos < length bytes \<and> bytes ! pos \<noteq> CHR ''e''")
    case False
    with Suc.prems have "r = res" "p = pos" "d' = d" by auto
    with False have "entries_between bytes pos [] p \<and> r = entries_dict [] res
             \<and> RawInfo d' = entries_info bytes [] (RawInfo d)
             \<and> \<not> (p < length bytes \<and> bytes ! p \<noteq> CHR ''e'')"
      by (simp add: entries_dict_def entries_info_def)
    then show ?thesis by blast
  next
    case True
    with Suc.prems(1) obtain key ck v c d1 where
      ps: "parseString (drop pos bytes) = Inr (key, ck)"
      and vp: "pos + ck < length bytes"
      and pv: "pv d (drop (pos + ck) bytes) = Some (Inr (v, c), d1)"
      and rec: "parseDict_loop pv f
                  (if key = ''info'' \<and> depth d1 = 1
                   then d1\<lparr>RawInfo := take c (drop (pos + ck) bytes)\<rparr> else d1)
                  bytes (AList.update key v res) (pos + ck + c) = Some (Inr (r, p), d')"
      by (auto simp: Let_def split: option.splits sum.splits prod.splits if_splits)
    from keepsD [OF kp pv] Suc.prems(2) have d1: "d1 = d" by simp
    let ?d2 = "if key = ''info'' \<and> depth d1 = 1
               then d1\<lparr>RawInfo := take c (drop (pos + ck) bytes)\<rparr> else d1"
    have dep: "depth ?d2 = 1" using d1 Suc.prems(2) by simp
    from Suc.IH [OF rec dep] obtain es where
      es: "entries_between bytes (pos + ck + c) es p"
          "r = entries_dict es (AList.update key v res)"
          "RawInfo d' = entries_info bytes es (RawInfo ?d2)"
          "\<not> (p < length bytes \<and> bytes ! p \<noteq> CHR ''e'')"
      by blast
    have raw: "RawInfo ?d2 = (if key = ''info'' then take c (drop (pos + ck) bytes) else RawInfo d)"
      using d1 Suc.prems(2) by simp
    let ?es = "(key, pos + ck, c, v) # es"
    have "entries_between bytes pos ?es p"
      using True ps vp va [OF Suc.prems(2) pv] es(1) by simp
    moreover have "r = entries_dict ?es res" using es(2) by (simp add: entries_dict_def)
    moreover have "RawInfo d' = entries_info bytes ?es (RawInfo d)"
      using es(3) raw by (simp add: entries_info_def)
    ultimately show ?thesis using es(4) by blast
  qed
qed

lemma parseDict_entries:
  assumes va: "\<And>d start v n d1. depth d = 1 \<Longrightarrow>
                 pv d (drop start bytes) = Some (Inr (v, n), d1) \<Longrightarrow> value_at bytes start v n"
    and kp: "keeps pv"
    and run: "parseDict pv f d bytes = Some (Inr (BDict m, n), d')" and d0: "depth d = 0"
  shows "\<exists>es p. bytes ! 0 = CHR ''d'' \<and> entries_between bytes 1 es p
           \<and> p < length bytes \<and> bytes ! p = CHR ''e'' \<and> n = p + 1
           \<and> m = entries_dict es [] \<and> RawInfo d' = entries_info bytes es (RawInfo d)"
proof -
  let ?d1 = "d\<lparr>depth := depth d + 1\<rparr>"
  from run obtain p d2 where
    loop: "parseDict_loop pv f ?d1 bytes [] 1 = Some (Inr (m, p), d2)"
    and d': "d' = d2\<lparr>depth := depth d2 - 1\<rparr>"
    and hd: "bytes ! 0 = CHR ''d''" and p: "p < length bytes" "bytes ! p = CHR ''e''" "n = p + 1"
    by (auto simp: parseDict_def leave_Some Let_def
             split: if_splits option.splits sum.splits prod.splits)
  have "depth ?d1 = 1" using d0 by simp
  have "\<exists>es. entries_between bytes 1 es p \<and> m = entries_dict es []
             \<and> RawInfo d2 = entries_info bytes es (RawInfo ?d1)
             \<and> \<not> (p < length bytes \<and> bytes ! p \<noteq> CHR ''e'')"
  proof (rule parseDict_loop_entries [OF _ kp loop])
    show "depth ?d1 = 1" by fact
  next
    fix d start v n d1
    assume "depth d = 1" "pv d (drop start bytes) = Some (Inr (v, n), d1)"
    then show "value_at bytes start v n" by (rule va)
  qed
  then obtain es where
    "entries_between bytes 1 es p" "m = entries_dict es []"
    "RawInfo d2 = entries_info bytes es (RawInfo ?d1)"
    by blast
  with d' hd p show ?thesis by auto
qed

lemma parseValue_dict_entries:
  assumes "parseValue f d bytes = Some (Inr (BDict m, n), d')" "depth d = 0"
  shows "\<exists>es p. bytes ! 0 = CHR ''d'' \<and> entries_between bytes 1 es p
           \<and> p < length bytes \<and> bytes ! p = CHR ''e'' \<and> n = p + 1
           \<and> m = entries_dict es [] \<and> RawInfo d' = entries_info bytes es (RawInfo d)"
proof (cases f)
  case 0
  with assms(1) show ?thesis by simp
next
  case (Suc g)
  with assms(1) have "parseDict (parseValue g) g d bytes = Some (Inr (BDict m, n), d')"
    by (auto split: if_splits sum.splits prod.splits dest: parseList_not_dict)
  from parseDict_entries [OF _ parseValue_keeps this assms(2)] parseValue_value_at
  show ?thesis by blast
qed

lemma entries_dict_snoc:
  "entries_dict (es @ [(key, start, n, v)]) res = AList.update key v (entries_dict es res)"
  by (simp add: entries_dict_def)

lemma entries_info_snoc:
  "entries_info bytes (es @ [(key, start, n, v)]) raw =
     (if key = ''info'' then take n (drop start bytes) else entries_info bytes es raw)"
  by (simp add: entries_info_def)

lemma last_info_entry:
  "map_of (entries_dict es []) ''info'' = Some v \<Longrightarrow>
   \<exists>es1 start n es2. es = es1 @ (''info'', start, n, v) # es2 \<and> ''info'' \<notin> fst ` set es2
      \<and> entries_info bytes es raw = take n (drop start bytes)"
proof (induction es rule: rev_induct)
  case Nil
  then show ?case by (simp add: entries_dict_def)
next
  case (snoc x es)
  obtain key start n w where x: "x = (key, start, n, w)" by (cases x)
  show ?case
  proof (cases "key = ''info''")
    case True
    with snoc.prems x have "w = v" by (simp add: entries_dict_snoc update_conv')
    with True x have "es @ [x] = es @ (''info'', start, n, v) # []"
      "''info'' \<notin> fst ` set ([] :: entry list)"
      "entries_info bytes (es @ [x]) raw = take n (drop start bytes)"
      by (simp_all add: entries_info_snoc)
    then show ?thesis by blast
  next
    case False
    with snoc.prems x have "map_of (entries_dict es []) ''info'' = Some v"
      by (simp add: entries_dict_snoc update_conv')
    from snoc.IH [OF this] obtain es1 start' n' es2 where
      d: "es = es1 @ (''info'', start', n', v) # es2" "''info'' \<notin> fst ` set es2"
         "entries_info bytes es raw = take n' (drop start' bytes)"
      by blast
    have "entries_info bytes (es @ [x]) raw = entries_info bytes es raw"
      using False x by (simp add: entries_info_snoc)
    with d(3) have i: "entries_info bytes (es @ [x]) raw = take n' (drop start' bytes)" by simp
    from d(1) have a: "es @ [x] = es1 @ (''info'', start', n', v) # (es2 @ [x])" by simp
    from d(2) False x have b: "''info'' \<notin> fst ` set (es2 @ [x])" by simp
    from a b i show ?thesis by blast
  qed
qed

lemma entries_between_mid:
  "entries_between bytes pos (es1 @ (key, start, n, v) # es2) p \<Longrightarrow>
   start < length bytes \<and> value_at bytes start v n"
proof (induction es1 arbitrary: pos)
  case Nil
  then show ?case by (auto split: sum.splits prod.splits)
next
  case (Cons e es1)
  obtain k s m w where e: "e = (k, s, m, w)" by (cases e)
  from Cons.prems e have "entries_between bytes (s + m) (es1 @ (key, start, n, v) # es2) p"
    by (auto split: sum.splits prod.splits)
  from Cons.IH [OF this] show ?case .
qed

lemma value_at_alone:
  assumes "value_at bytes start v n"
  shows "0 < n \<and> start + n \<le> length bytes
       \<and> parseValue (length bytes + 1) nested (take n (drop start bytes)) = Some (Inr (v, n), nested)"
proof -
  from assms have run: "parseValue (length bytes + 1) nested (drop start bytes) = Some (Inr (v, n), nested)"
    by (simp add: value_at_def)
  from advancesD [OF parseValue_advances run] have n: "0 < n" "start + n \<le> length bytes" by auto
  have "take n (take n (drop start bytes)) = take n (drop start bytes)" by simp
  from prefix_determinedD [OF parseValue_prefix_determined run this] n show ?thesis by simp
qed

lemma RawInfo_position:
  assumes "Decode (NewDecoder input) = Some (Inr (BDict m), d')"
    and "map_of m ''info'' = Some v"
  shows "\<exists>es1 start n es2 p.
           input ! 0 = CHR ''d''
         \<and> entries_between input 1 (es1 @ (''info'', start, n, v) # es2) p
         \<and> p < length input \<and> input ! p = CHR ''e''
         \<and> m = entries_dict (es1 @ (''info'', start, n, v) # es2) []
         \<and> ''info'' \<notin> fst ` set es2
         \<and> 0 < n \<and> start + n \<le> length input
         \<and> RawInfo d' = take n (drop start input)
         \<and> parseValue (length input + 1) nested (RawInfo d') = Some (Inr (v, length (RawInfo d')), nested)"
proof -
  from assms(1) obtain k where
    pv: "parseValue (length input + 1) (NewDecoder input) input = Some (Inr (BDict m, k), d')"
    by (auto simp: Decode_def Decode_fuel_def NewDecoder_def
             split: option.splits sum.splits prod.splits)
  have "depth (NewDecoder input) = 0" by (simp add: NewDecoder_def)
  from parseValue_dict_entries [OF pv this] obtain es p where
    es: "input ! 0 = CHR ''d''" "entries_between input 1 es p" "p < length input"
        "input ! p = CHR ''e''" "m = entries_dict es []"
        "RawInfo d' = entries_info input es []"
    by (auto simp: NewDecoder_def)
  from assms(2) es(5) have "map_of (entries_dict es []) ''info'' = Some v" by simp
  from last_info_entry [OF this, of input "[]"] obtain es1 start n es2 where
    sp: "es = es1 @ (''info'', start, n, v) # es2" "''info'' \<notin> fst ` set es2"
        "entries_info input es [] = take n (drop start input)"
    by blast
  from entries_between_mid [of input 1 es1 "''info''" start n v es2 p] es(2) sp(1)
  have "value_at input start v n" by simp
  from value_at_alone [OF this]
  have n: "0 < n" "start + n \<le> length input"
    "parseValue (length input + 1) nested (take n (drop start input)) = Some (Inr (v, n), nested)"
    by simp_all
  have raw: "RawInfo d' = take n (drop start input)" using es(6) sp(3) by simp
  then have len: "length (RawInfo d') = n" using n(2) by simp
  show ?thesis
    using es(1,3,4) es(2,5) [unfolded sp(1)] sp(2) n(1,2) raw n(3) [folded raw] len
    by (intro exI [of _ es1] exI [of _ start] exI [of _ n] exI [of _ es2] exI [of _ p]) simp
qed

text \<open>
  The entries of a dictionary are fixed by the input: the key parser and the
  value parser are functions, and the dictionary ends at the first position that
  is not the start of an entry.
\<close>

lemma entries_between_unique:
  "entries_between bytes pos es p \<Longrightarrow> entries_between bytes pos es' p' \<Longrightarrow>
   \<not> (p < length bytes \<and> bytes ! p \<noteq> CHR ''e'') \<Longrightarrow>
   \<not> (p' < length bytes \<and> bytes ! p' \<noteq> CHR ''e'') \<Longrightarrow> es' = es \<and> p' = p"
proof (induction es arbitrary: es' pos)
  case Nil
  then show ?case by (cases es') (auto split: sum.splits prod.splits)
next
  case (Cons e es)
  obtain k s m w where e: "e = (k, s, m, w)" by (cases e)
  from Cons.prems(1,3) e have here: "pos < length bytes \<and> bytes ! pos \<noteq> CHR ''e''" by simp
  show ?case
  proof (cases es')
    case Nil
    with Cons.prems(2,4) here show ?thesis by simp
  next
    case (Cons e' es2)
    obtain k' s' m' w' where e': "e' = (k', s', m', w')" by (cases e')
    from Cons.prems(1) e obtain ck where
      a: "parseString (drop pos bytes) = Inr (k, ck)" "s = pos + ck" "value_at bytes s w m"
         "entries_between bytes (s + m) es p"
      by (auto split: sum.splits prod.splits)
    from Cons.prems(2) Cons e' obtain ck' where
      b: "parseString (drop pos bytes) = Inr (k', ck')" "s' = pos + ck'" "value_at bytes s' w' m'"
         "entries_between bytes (s' + m') es2 p'"
      by (auto split: sum.splits prod.splits)
    from a(1,2) b(1,2) have ks: "k' = k" "s' = s" by simp_all
    with a(3) b(3) have wm: "w' = w" "m' = m" by (simp_all add: value_at_def)
    from Cons.IH [OF a(4) b(4) [unfolded ks wm] Cons.prems(3,4)] ks wm e e' Cons
    show ?thesis by simp
  qed
qed

lemma RawInfo_position_unique:
  assumes "Decode (NewDecoder input) = Some (Inr (BDict m), d')"
    and "map_of m ''info'' = Some v"
  shows "\<exists>es1 start n es2 p.
           input ! 0 = CHR ''d''
         \<and> entries_between input 1 (es1 @ (''info'', start, n, v) # es2) p
         \<and> p < length input \<and> input ! p = CHR ''e''
         \<and> (\<forall>es' p'. entries_between input 1 es' p'
                \<and> \<not> (p' < length input \<and> input ! p' \<noteq> CHR ''e'')
              \<longrightarrow> es' = es1 @ (''info'', start, n, v) # es2 \<and> p' = p)
         \<and> m = entries_dict (es1 @ (''info'', start, n, v) # es2) []
         \<and> ''info'' \<notin> fst ` set es2
         \<and> 0 < n \<and> start + n \<le> length input
         \<and> RawInfo d' = take n (drop start input)
         \<and> parseValue (length input + 1) nested (RawInfo d')
             = Some (Inr (v, length (RawInfo d')), nested)"
proof -
  from RawInfo_position [OF assms] obtain es1 start n es2 p where
    r: "input ! 0 = CHR ''d''"
       "entries_between input 1 (es1 @ (''info'', start, n, v) # es2) p"
       "p < length input" "input ! p = CHR ''e''"
       "m = entries_dict (es1 @ (''info'', start, n, v) # es2) []"
       "''info'' \<notin> fst ` set es2" "0 < n" "start + n \<le> length input"
       "RawInfo d' = take n (drop start input)"
       "parseValue (length input + 1) nested (RawInfo d')
             = Some (Inr (v, length (RawInfo d')), nested)"
    by (elim exE conjE) (rule that; assumption)
  have u: "\<forall>es' p'. entries_between input 1 es' p'
                \<and> \<not> (p' < length input \<and> input ! p' \<noteq> CHR ''e'')
              \<longrightarrow> es' = es1 @ (''info'', start, n, v) # es2 \<and> p' = p"
  proof (intro allI impI)
    fix es' p'
    assume h: "entries_between input 1 es' p'
                \<and> \<not> (p' < length input \<and> input ! p' \<noteq> CHR ''e'')"
    have endp: "\<not> (p < length input \<and> input ! p \<noteq> CHR ''e'')" using r(4) by simp
    from entries_between_unique [OF r(2) conjunct1 [OF h] endp conjunct2 [OF h]]
    show "es' = es1 @ (''info'', start, n, v) # es2 \<and> p' = p" .
  qed
  show ?thesis
    by (intro exI [of _ es1] exI [of _ start] exI [of _ n] exI [of _ es2] exI [of _ p] conjI)
       (fact r u)+
qed

lemma RawInfo_fixture:
  "Decode (NewDecoder ''d8:announce3:url4:infod4:name1:ae5:extra1:xe'')
     = Some (Inr (BDict [(''announce'', BStr ''url''),
                         (''info'', BDict [(''name'', BStr ''a'')]),
                         (''extra'', BStr ''x'')]),
             \<lparr>data = ''d8:announce3:url4:infod4:name1:ae5:extra1:xe'', depth = 0,
              RawInfo = ''d4:name1:ae''\<rparr>)"
  by code_simp

lemma RawInfo_fixture_entries:
  "entries_between ''d8:announce3:url4:infod4:name1:ae5:extra1:xe'' 1
     [(''announce'', 11, 5, BStr ''url''),
      (''info'', 22, 11, BDict [(''name'', BStr ''a'')]),
      (''extra'', 40, 3, BStr ''x'')] 43"
  by code_simp

lemma Open_infoHash:
  assumes "Open sha1 fs path = Inr (t, h)"
  shows "\<exists>bytes r d'. fs path = Some bytes \<and> Decode (NewDecoder bytes) = Some (Inr r, d')
           \<and> h = sha1 (bytes_of (RawInfo d'))"
proof -
  from assms obtain bytes where b: "fs path = Some bytes"
    by (cases "fs path") (auto simp: Open_def)
  from assms b obtain x d' where d: "Decode (NewDecoder bytes) = Some (x, d')"
    by (cases "Decode (NewDecoder bytes)") (auto simp: Open_def)
  from assms b d obtain r where r: "x = Inr r"
    by (cases x) (auto simp: Open_def)
  from assms b d r have "h = sha1 (bytes_of (RawInfo d'))"
    unfolding Open_def
    by (simp add: Let_def split: bvalue.splits option.splits sum.splits prod.splits)
  with b d r show ?thesis by blast
qed

text \<open>
  C1 (as amended).  Whenever \<open>Decode\<close> succeeds with a dictionary \<open>m\<close> in which
  the key \<open>info\<close> has the value \<open>v\<close>: the input is \<open>d\<close>, then a sequence of
  entries that starts at offset 1 (each a key string followed at once by its
  value), then \<open>e\<close>; this sequence is the only one the input has, and \<open>m\<close> is the
  dictionary it builds; the last entry with key \<open>info\<close> has the value \<open>v\<close>, which
  occupies the bytes \<open>[start, start + n)\<close> right after that key; and \<open>RawInfo\<close> is
  exactly this range of the input.  These bytes, parsed on their own at the depth
  of a dictionary value, give \<open>v\<close> and are consumed to the last byte.  \<open>Open\<close>
  returns the SHA-1 of \<open>RawInfo\<close>.  For the fixture the captured bytes are
  \<open>d4:name1:ae\<close>, which are 11 bytes.
\<close>

theorem RawInfo_is_info_slice:
  "(\<forall>input m d' v.
      Decode (NewDecoder input) = Some (Inr (BDict m), d') \<and> map_of m ''info'' = Some v \<longrightarrow>
      (\<exists>es1 start n es2 p.
           input ! 0 = CHR ''d''
         \<and> entries_between input 1 (es1 @ (''info'', start, n, v) # es2) p
         \<and> p < length input \<and> input ! p = CHR ''e''
         \<and> (\<forall>es' p'. entries_between input 1 es' p'
                \<and> \<not> (p' < length input \<and> input ! p' \<noteq> CHR ''e'')
              \<longrightarrow> es' = es1 @ (''info'', start, n, v) # es2 \<and> p' = p)
         \<and> m = entries_dict (es1 @ (''info'', start, n, v) # es2) []
         \<and> ''info'' \<notin> fst ` set es2
         \<and> 0 < n \<and> start + n \<le> length input
         \<and> RawInfo d' = take n (drop start input)
         \<and> parseValue (length input + 1) nested (RawInfo d')
             = Some (Inr (v, length (RawInfo d')), nested)))
 \<and> (\<forall>sha1 fs path t h. Open sha1 fs path = Inr (t, h) \<longrightarrow>
      (\<exists>bytes r d'. fs path = Some bytes \<and> Decode (NewDecoder bytes) = Some (Inr r, d')
           \<and> h = sha1 (bytes_of (RawInfo d'))))
 \<and> Decode (NewDecoder ''d8:announce3:url4:infod4:name1:ae5:extra1:xe'')
     = Some (Inr (BDict [(''announce'', BStr ''url''),
                         (''info'', BDict [(''name'', BStr ''a'')]),
                         (''extra'', BStr ''x'')]),
             \<lparr>data = ''d8:announce3:url4:infod4:name1:ae5:extra1:xe'', depth = 0,
              RawInfo = ''d4:name1:ae''\<rparr>)
 \<and> length ''d4:name1:ae'' = 11"
proof (intro conjI allI impI)
  fix input m d' v
  assume a: "Decode (NewDecoder input) = Some (Inr (BDict m), d') \<and> map_of m ''info'' = Some v"
  show "\<exists>es1 start n es2 p.
           input ! 0 = CHR ''d''
         \<and> entries_between input 1 (es1 @ (''info'', start, n, v) # es2) p
         \<and> p < length input \<and> input ! p = CHR ''e''
         \<and> (\<forall>es' p'. entries_between input 1 es' p'
                \<and> \<not> (p' < length input \<and> input ! p' \<noteq> CHR ''e'')
              \<longrightarrow> es' = es1 @ (''info'', start, n, v) # es2 \<and> p' = p)
         \<and> m = entries_dict (es1 @ (''info'', start, n, v) # es2) []
         \<and> ''info'' \<notin> fst ` set es2
         \<and> 0 < n \<and> start + n \<le> length input
         \<and> RawInfo d' = take n (drop start input)
         \<and> parseValue (length input + 1) nested (RawInfo d')
             = Some (Inr (v, length (RawInfo d')), nested)"
    by (rule RawInfo_position_unique [OF conjunct1 [OF a] conjunct2 [OF a]])
next
  fix sha1 fs path t h
  assume "Open sha1 fs path = Inr (t, h)"
  from Open_infoHash [OF this]
  show "\<exists>bytes r d'. fs path = Some bytes \<and> Decode (NewDecoder bytes) = Some (Inr r, d')
           \<and> h = sha1 (bytes_of (RawInfo d'))" .
next
  show "Decode (NewDecoder ''d8:announce3:url4:infod4:name1:ae5:extra1:xe'')
     = Some (Inr (BDict [(''announce'', BStr ''url''),
                         (''info'', BDict [(''name'', BStr ''a'')]),
                         (''extra'', BStr ''x'')]),
             \<lparr>data = ''d8:announce3:url4:infod4:name1:ae5:extra1:xe'', depth = 0,
              RawInfo = ''d4:name1:ae''\<rparr>)"
    by (rule RawInfo_fixture)
next
  show "length ''d4:name1:ae'' = 11" by simp
qed

theorem RawInfo_is_info_slice_witness:
  "Decode (NewDecoder ''d8:announce3:url4:infod4:name1:ae5:extra1:xe'')
     = Some (Inr (BDict [(''announce'', BStr ''url''),
                         (''info'', BDict [(''name'', BStr ''a'')]),
                         (''extra'', BStr ''x'')]),
             \<lparr>data = ''d8:announce3:url4:infod4:name1:ae5:extra1:xe'', depth = 0,
              RawInfo = ''d4:name1:ae''\<rparr>)
   \<and> map_of [(''announce'', BStr ''url''), (''info'', BDict [(''name'', BStr ''a'')]),
              (''extra'', BStr ''x'')] ''info'' = Some (BDict [(''name'', BStr ''a'')])
   \<and> (\<exists>es1 start n es2 p.
         entries_between ''d8:announce3:url4:infod4:name1:ae5:extra1:xe'' 1
           (es1 @ (''info'', start, n, BDict [(''name'', BStr ''a'')]) # es2) p
       \<and> es1 @ (''info'', start, n, BDict [(''name'', BStr ''a'')]) # es2
           = [(''announce'', 11, 5, BStr ''url''),
              (''info'', 22, 11, BDict [(''name'', BStr ''a'')]),
              (''extra'', 40, 3, BStr ''x'')]
       \<and> p = 43
       \<and> ''info'' \<notin> fst ` set es2
       \<and> ''d4:name1:ae'' = take n (drop start ''d8:announce3:url4:infod4:name1:ae5:extra1:xe''))"
proof -
  let ?input = "''d8:announce3:url4:infod4:name1:ae5:extra1:xe''"
  let ?v = "BDict [(''name'', BStr ''a'')]"
  let ?m = "[(''announce'', BStr ''url''), (''info'', ?v), (''extra'', BStr ''x'')]"
  let ?d = "\<lparr>data = ?input, depth = 0, RawInfo = ''d4:name1:ae''\<rparr>"
  let ?es = "[(''announce'', 11, 5, BStr ''url''), (''info'', 22, 11, ?v),
              (''extra'', 40, 3, BStr ''x'')] :: entry list"
  have dec: "Decode (NewDecoder ?input) = Some (Inr (BDict ?m), ?d)"
    by (rule RawInfo_is_info_slice [THEN conjunct2, THEN conjunct2, THEN conjunct1])
  have look: "map_of ?m ''info'' = Some ?v" by simp
  note gen = RawInfo_is_info_slice [THEN conjunct1, rule_format, OF conjI [OF dec look]]
  from gen obtain es1 start n es2 p where
    r: "entries_between ?input 1 (es1 @ (''info'', start, n, ?v) # es2) p"
       "\<forall>es' p'. entries_between ?input 1 es' p'
                \<and> \<not> (p' < length ?input \<and> ?input ! p' \<noteq> CHR ''e'')
              \<longrightarrow> es' = es1 @ (''info'', start, n, ?v) # es2 \<and> p' = p"
       "''info'' \<notin> fst ` set es2"
       "RawInfo ?d = take n (drop start ?input)"
    by (elim exE conjE) (rule that; assumption)
  have fin: "\<not> ((43::nat) < length ?input \<and> ?input ! 43 \<noteq> CHR ''e'')" by simp
  from r(2) [rule_format, OF conjI [OF RawInfo_fixture_entries fin]]
  have eq: "?es = es1 @ (''info'', start, n, ?v) # es2 \<and> (43::nat) = p" .
  have ex: "\<exists>es1 start n es2 p.
         entries_between ?input 1 (es1 @ (''info'', start, n, ?v) # es2) p
       \<and> es1 @ (''info'', start, n, ?v) # es2 = ?es
       \<and> p = 43
       \<and> ''info'' \<notin> fst ` set es2
       \<and> ''d4:name1:ae'' = take n (drop start ?input)"
  proof (rule exI [of _ es1], rule exI [of _ start], rule exI [of _ n], rule exI [of _ es2],
         rule exI [of _ p], intro conjI)
    show "entries_between ?input 1 (es1 @ (''info'', start, n, ?v) # es2) p" by (rule r(1))
    show "es1 @ (''info'', start, n, ?v) # es2 = ?es" by (rule conjunct1 [OF eq, symmetric])
    show "p = 43" by (rule conjunct2 [OF eq, symmetric])
    show "''info'' \<notin> fst ` set es2" by (rule r(3))
    show "''d4:name1:ae'' = take n (drop start ?input)" using r(4) by simp
  qed
  show ?thesis by (rule conjI [OF dec conjI [OF look ex]])
qed

text \<open>
  C1 (as stated) fails in its last words: the bytes captured for the fixture are
  \<open>d4:name1:ae\<close>, and these are 11 bytes, not 10.
\<close>

theorem RawInfo_fixture_counterexample:
  "Decode (NewDecoder ''d8:announce3:url4:infod4:name1:ae5:extra1:xe'')
     = Some (Inr (BDict [(''announce'', BStr ''url''),
                         (''info'', BDict [(''name'', BStr ''a'')]),
                         (''extra'', BStr ''x'')]),
             \<lparr>data = ''d8:announce3:url4:infod4:name1:ae5:extra1:xe'', depth = 0,
              RawInfo = ''d4:name1:ae''\<rparr>)
   \<and> length (RawInfo \<lparr>data = ''d8:announce3:url4:infod4:name1:ae5:extra1:xe'', depth = 0,
              RawInfo = ''d4:name1:ae''\<rparr>) \<noteq> 10"
  using RawInfo_fixture by simp

end
